theory Spec2Isabelle
  imports Complex_Main "HOL-Library.Word"
begin

section \<open>The C event loop of JavaScript-Duktape-XS (c_eventloop.c)\<close>

text \<open>
  A shallow embedding of \<^verbatim>\<open>src/c_eventloop.c\<close>: the timer list, the expiring holder,
  the poll list and the functions that work on them. The static variables of the file
  are the fields of one record that every function takes and returns.

  Conventions of the model.
  \<^item> A \<^verbatim>\<open>double\<close> is a real number, one of the two infinities, or NaN, with the
    comparisons and sums of the C program: every comparison with NaN is false, every sum
    with NaN is NaN. Rounding is not represented. A clock reading (\<^verbatim>\<open>now_us() / 1000.0\<close>)
    is a number; a delay comes from the script and can be any \<^verbatim>\<open>double\<close>.
  \<^item> \<^verbatim>\<open>int64_t\<close> timer ids are integers; the counter \<^verbatim>\<open>timer_next_id\<close> only grows, and the
    2^63 creations it would take to overflow it are not represented.
  \<^item> \<^verbatim>\<open>timer_list\<close> and \<^verbatim>\<open>poll_list\<close> are the used prefixes of the two static arrays, in
    index order: \<^verbatim>\<open>timer_count\<close> and \<^verbatim>\<open>poll_count\<close> are their lengths. Every slot beyond
    the count is zero in the C program (it is zeroed at registration and again whenever
    the count drops), so a read beyond the prefix yields the zero struct.
  \<^item> \<^verbatim>\<open>now_us()\<close>, \<^verbatim>\<open>poll()\<close> and the Ecmascript callbacks are the environment. The clock
    reading is an argument of the function that reads it; the outcome of \<^verbatim>\<open>poll\<close> (its
    return code and the \<^verbatim>\<open>revents\<close> it leaves) is an argument of the loop iteration; what
    the callbacks do is given as one behaviour per invocation, in the order of the
    invocations: the calls it makes to the four registered functions, and whether it
    ends by throwing.
  \<^item> The field \<open>trace\<close> is a ghost: it records the protected calls, the \<^verbatim>\<open>poll\<close> calls and
    the console reports in the order they happen, and no function reads it.
\<close>

subsection \<open>Constants\<close>

definition MAX_TIMERS :: nat where "MAX_TIMERS = 4096"
definition MIN_DELAY :: real where "MIN_DELAY = 1"
definition MIN_WAIT :: real where "MIN_WAIT = 1"
definition MAX_WAIT :: real where "MAX_WAIT = 60000"
definition MAX_EXPIRYS :: nat where "MAX_EXPIRYS = 10"
definition MAX_FDS :: nat where "MAX_FDS = 256"

subsection \<open>Data\<close>

text \<open>
  \<^verbatim>\<open>double\<close>, with \<^verbatim>\<open><=\<close>, \<^verbatim>\<open><\<close>, \<^verbatim>\<open>+\<close> and \<^verbatim>\<open>-\<close> as the program computes them
  (\<open>x > y\<close> is \<open>y < x\<close>).
\<close>

datatype double = MInf | Num real | PInf | NaN

instantiation double :: "{ord, plus, minus}"
begin

fun less_eq_double :: "double \<Rightarrow> double \<Rightarrow> bool" where
  "less_eq_double NaN y = False"
| "less_eq_double x NaN = False"
| "less_eq_double MInf y = True"
| "less_eq_double x PInf = True"
| "less_eq_double (Num a) (Num b) = (a \<le> b)"
| "less_eq_double x y = False"

fun less_double :: "double \<Rightarrow> double \<Rightarrow> bool" where
  "less_double NaN y = False"
| "less_double x NaN = False"
| "less_double (Num a) (Num b) = (a < b)"
| "less_double MInf MInf = False"
| "less_double MInf y = True"
| "less_double PInf y = False"
| "less_double x PInf = True"
| "less_double x y = False"

fun plus_double :: "double \<Rightarrow> double \<Rightarrow> double" where
  "plus_double NaN y = NaN"
| "plus_double x NaN = NaN"
| "plus_double (Num a) (Num b) = Num (a + b)"
| "plus_double PInf MInf = NaN"
| "plus_double MInf PInf = NaN"
| "plus_double PInf y = PInf"
| "plus_double x PInf = PInf"
| "plus_double MInf y = MInf"
| "plus_double x MInf = MInf"

fun minus_double :: "double \<Rightarrow> double \<Rightarrow> double" where
  "minus_double NaN y = NaN"
| "minus_double x NaN = NaN"
| "minus_double (Num a) (Num b) = Num (a - b)"
| "minus_double PInf PInf = NaN"
| "minus_double MInf MInf = NaN"
| "minus_double PInf y = PInf"
| "minus_double MInf y = MInf"
| "minus_double x PInf = MInf"
| "minus_double x MInf = PInf"

instance ..

end

text \<open>\<^verbatim>\<open>ev_timer\<close>; the field \<^verbatim>\<open>id\<close> is \<open>id_of\<close> here.\<close>

record ev_timer =
  id_of :: int
  target :: double
  delay :: double
  oneshot :: bool
  removed :: bool

text \<open>\<^verbatim>\<open>struct pollfd\<close>: an \<^verbatim>\<open>int\<close> descriptor and two \<^verbatim>\<open>short\<close> masks.\<close>

record pollfd =
  fd :: int
  events :: "16 word"
  revents :: "16 word"

text \<open>A handle of an Ecmascript function value.\<close>

type_synonym callback = nat

datatype event =
    Call_timer int
  | Call_fd int int
  | Poll_wait nat int
  | Console_timer int
  | Console_fd int int

record state =
  timer_list :: "ev_timer list"
  timer_expiring :: ev_timer
  timer_next_id :: int
  poll_list :: "pollfd list"
  exit_requested :: bool
  eventTimers :: "int \<rightharpoonup> callback"
  trace :: "event list"

datatype error =
    RangeError_out_of_timer_slots
  | Error_out_of_fd_slots
  | Null_dereference
  | Undefined_double_to_int

text \<open>
  A function that can leave through \<^verbatim>\<open>duk_error\<close> (or crash) returns the error together
  with the state at that point, or its result.
\<close>

type_synonym 'a result = "(error \<times> state) + 'a"

definition zero_timer :: ev_timer where
  "zero_timer = \<lparr>id_of = 0, target = Num 0, delay = Num 0, oneshot = False, removed = False\<rparr>"

definition zero_pollfd :: pollfd where
  "zero_pollfd = \<lparr>fd = 0, events = 0, revents = 0\<rparr>"

text \<open>The state \<^verbatim>\<open>eventloop_register\<close> and the static initialisers leave.\<close>

definition eventloop_register :: state where
  "eventloop_register =
     \<lparr>timer_list = [], timer_expiring = zero_timer, timer_next_id = 1,
      poll_list = [], exit_requested = False, eventTimers = Map.empty, trace = []\<rparr>"

text \<open>Reads of array slots, by index.\<close>

definition timer_slot :: "state \<Rightarrow> nat \<Rightarrow> ev_timer" where
  "timer_slot s i = (if i < length (timer_list s) then timer_list s ! i else zero_timer)"

definition poll_slot :: "state \<Rightarrow> nat \<Rightarrow> pollfd" where
  "poll_slot s i = (if i < length (poll_list s) then poll_list s ! i else zero_pollfd)"

subsection \<open>Timers\<close>

text \<open>\<^verbatim>\<open>find_nearest_timer\<close>: a pointer to the last used slot, or NULL.\<close>

definition find_nearest_timer :: "state \<Rightarrow> nat option" where
  "find_nearest_timer s =
     (if length (timer_list s) \<le> 0 then None else Some (length (timer_list s) - 1))"

text \<open>
  \<^verbatim>\<open>bubble_last_timer\<close>: the loop \<^verbatim>\<open>for (i = n - 1; i > 0; i--)\<close>, with \<open>Suc j\<close> for \<^verbatim>\<open>i\<close>.
\<close>

fun bubble_loop :: "nat \<Rightarrow> ev_timer list \<Rightarrow> ev_timer list" where
  "bubble_loop 0 ts = ts"
| "bubble_loop (Suc j) ts =
     (if target (ts ! Suc j) \<le> target (ts ! j) then ts
      else bubble_loop j (ts[j := ts ! Suc j, Suc j := ts ! j]))"

definition bubble_last_timer :: "state \<Rightarrow> state" where
  "bubble_last_timer s =
     s\<lparr>timer_list := bubble_loop (length (timer_list s) - 1) (timer_list s)\<rparr>"

text \<open>
  \<^verbatim>\<open>create_timer\<close>, with the clock reading \<open>now\<close> and the three arguments of the call.
\<close>

definition create_timer ::
  "real \<Rightarrow> callback \<Rightarrow> double \<Rightarrow> bool \<Rightarrow> state \<Rightarrow> (int \<times> state) result" where
  "create_timer now func delay0 oneshot0 s =
     (let delay1 = (if delay0 < Num MIN_DELAY then Num MIN_DELAY else delay0) in
      if length (timer_list s) \<ge> MAX_TIMERS then Inl (RangeError_out_of_timer_slots, s)
      else
        let timer_id = timer_next_id s;
            t = \<lparr>id_of = timer_id, target = Num now + delay1, delay = delay1,
                 oneshot = oneshot0, removed = False\<rparr>;
            s1 = s\<lparr>timer_list := timer_list s @ [t], timer_next_id := timer_next_id s + 1\<rparr>;
            s2 = bubble_last_timer s1;
            s3 = s2\<lparr>eventTimers := (eventTimers s2)(timer_id \<mapsto> func)\<rparr>
        in Inr (timer_id, s3))"

text \<open>
  The scan of \<^verbatim>\<open>delete_timer\<close>: the list without its first entry of that id (the later
  entries shifted down by the \<^verbatim>\<open>memmove\<close>), or \<open>None\<close> when no entry has the id.
\<close>

fun delete_scan :: "int \<Rightarrow> ev_timer list \<Rightarrow> ev_timer list option" where
  "delete_scan timer_id [] = None"
| "delete_scan timer_id (t # ts) =
     (if id_of t = timer_id then Some ts
      else map_option ((#) t) (delete_scan timer_id ts))"

text \<open>
  \<^verbatim>\<open>delete_timer\<close>; \<open>timer_id\<close> is the value of \<^verbatim>\<open>(int64_t) duk_require_number(ctx, 0)\<close>,
  and the boolean is what the call returns to the script.
\<close>

definition delete_timer :: "int \<Rightarrow> state \<Rightarrow> bool \<times> state" where
  "delete_timer timer_id s =
     (if id_of (timer_expiring s) = timer_id
      then (True, s\<lparr>timer_expiring := (timer_expiring s)\<lparr>removed := True\<rparr>\<rparr>)
      else
        (case delete_scan timer_id (timer_list s) of
           None \<Rightarrow> (False, s)
         | Some ts \<Rightarrow>
             (True, s\<lparr>timer_list := ts,
                      eventTimers := (eventTimers s)(timer_id := None)\<rparr>)))"

subsection \<open>The poll list\<close>

fun listen_scan :: "int \<Rightarrow> int \<Rightarrow> pollfd list \<Rightarrow> pollfd list option" where
  "listen_scan f ev [] = None"
| "listen_scan f ev (p # ps) =
     (if fd p = f
      then Some ((if ev = 0 then p\<lparr>fd := 0\<rparr> else p\<lparr>events := word_of_int ev\<rparr>) # ps)
      else map_option ((#) p) (listen_scan f ev ps))"

definition listen_fd :: "int \<Rightarrow> int \<Rightarrow> state \<Rightarrow> state result" where
  "listen_fd f ev s =
     (case listen_scan f ev (poll_list s) of
        Some ps \<Rightarrow> Inr (s\<lparr>poll_list := ps\<rparr>)
      | None \<Rightarrow>
          if length (poll_list s) \<ge> MAX_FDS then Inl (Error_out_of_fd_slots, s)
          else Inr (s\<lparr>poll_list :=
                        poll_list s @ [\<lparr>fd = f, events = word_of_int ev, revents = 0\<rparr>]\<rparr>))"

definition request_exit :: "state \<Rightarrow> state" where
  "request_exit s = s\<lparr>exit_requested := True\<rparr>"

text \<open>\<^verbatim>\<open>compact_poll_list\<close>: the entries with \<^verbatim>\<open>fd != 0\<close>, in their order.\<close>

fun compact_loop :: "pollfd list \<Rightarrow> pollfd list" where
  "compact_loop [] = []"
| "compact_loop (p # ps) = (if fd p = 0 then compact_loop ps else p # compact_loop ps)"

definition compact_poll_list :: "state \<Rightarrow> state" where
  "compact_poll_list s = s\<lparr>poll_list := compact_loop (poll_list s)\<rparr>"

subsection \<open>Callbacks\<close>

text \<open>
  The four functions registered on \<^verbatim>\<open>EventLoop\<close> are all a callback can do to the state.
  A call that throws leaves the state as it was at the throw, and the script goes on
  (it may catch the error) or ends.
\<close>

datatype op =
    CreateTimer real callback double bool
  | DeleteTimer int
  | ListenFd int int
  | RequestExit

fun run_op :: "op \<Rightarrow> state \<Rightarrow> state" where
  "run_op (CreateTimer now func d one) s =
     (case create_timer now func d one s of Inl (e, s') \<Rightarrow> s' | Inr (i, s') \<Rightarrow> s')"
| "run_op (DeleteTimer i) s = snd (delete_timer i s)"
| "run_op (ListenFd f ev) s =
     (case listen_fd f ev s of Inl (e, s') \<Rightarrow> s' | Inr s' \<Rightarrow> s')"
| "run_op RequestExit s = request_exit s"

fun run_ops :: "op list \<Rightarrow> state \<Rightarrow> state" where
  "run_ops [] s = s"
| "run_ops (x # xs) s = run_ops xs (run_op x s)"

text \<open>One invocation of a callback: the calls it makes, and whether it throws.\<close>

record behaviour =
  calls :: "op list"
  throws :: bool

definition returns_at_once :: behaviour where
  "returns_at_once = \<lparr>calls = [], throws = False\<rparr>"

fun next_behaviour :: "behaviour list \<Rightarrow> behaviour \<times> behaviour list" where
  "next_behaviour [] = (returns_at_once, [])"
| "next_behaviour (b # bs) = (b, bs)"

definition emit :: "event \<Rightarrow> state \<Rightarrow> state" where
  "emit e s = s\<lparr>trace := trace s @ [e]\<rparr>"

subsection \<open>Expiring timers\<close>

text \<open>
  The body of the \<^verbatim>\<open>while\<close> loop of \<^verbatim>\<open>expire_timers\<close>, in its three parts. First the
  last timer of the list is moved to \<^verbatim>\<open>timer_expiring\<close>, and marked removed (one-shot)
  or given its new target (interval).
\<close>

definition begin_expiry :: "real \<Rightarrow> state \<Rightarrow> state" where
  "begin_expiry now s =
     (let t = last (timer_list s);
          s1 = s\<lparr>timer_expiring := t, timer_list := butlast (timer_list s)\<rparr>
      in if oneshot t
         then s1\<lparr>timer_expiring := (timer_expiring s1)\<lparr>removed := True\<rparr>\<rparr>
         else s1\<lparr>timer_expiring :=
                   (timer_expiring s1)\<lparr>target := Num now + delay (timer_expiring s1)\<rparr>\<rparr>)"

text \<open>
  Then \<^verbatim>\<open>eventTimers[id]\<close> is called under \<^verbatim>\<open>duk_pcall\<close>. A missing entry makes the
  protected call fail without running any script; a failure is reported on the console.
\<close>

definition call_timer :: "behaviour list \<Rightarrow> state \<Rightarrow> behaviour list \<times> state" where
  "call_timer bs s =
     (case eventTimers s (id_of (timer_expiring s)) of
        None \<Rightarrow> (bs, emit (Console_timer (id_of (timer_expiring s))) s)
      | Some func \<Rightarrow>
          let (b, bs1) = next_behaviour bs;
              s1 = run_ops (calls b) (emit (Call_timer (id_of (timer_expiring s))) s)
          in (bs1, if throws b then emit (Console_timer (id_of (timer_expiring s1))) s1
                   else s1))"

text \<open>
  Last, a removed timer loses its \<^verbatim>\<open>eventTimers\<close> entry, and any other is queued back
  and bubbled; \<^verbatim>\<open>duk_error\<close> does not return.
\<close>

definition finish_expiry :: "state \<Rightarrow> state result" where
  "finish_expiry s =
     (let t = timer_expiring s in
      if removed t
      then Inr (s\<lparr>eventTimers := (eventTimers s)(id_of t := None)\<rparr>)
      else if length (timer_list s) \<ge> MAX_TIMERS
      then Inl (RangeError_out_of_timer_slots, s)
      else Inr (bubble_last_timer (s\<lparr>timer_list := timer_list s @ [t]\<rparr>)))"

definition expire_one :: "real \<Rightarrow> behaviour list \<Rightarrow> state \<Rightarrow> (behaviour list \<times> state) result" where
  "expire_one now bs s =
     (let (bs1, s2) = call_timer bs (begin_expiry now s) in
      case finish_expiry s2 of
        Inl e \<Rightarrow> Inl e
      | Inr s3 \<Rightarrow> Inr (bs1, s3))"

text \<open>\<^verbatim>\<open>while (sanity-- > 0)\<close> with its three ways out.\<close>

fun expire_loop :: "nat \<Rightarrow> real \<Rightarrow> behaviour list \<Rightarrow> state \<Rightarrow> state result" where
  "expire_loop 0 now bs s = Inr s"
| "expire_loop (Suc sanity) now bs s =
     (if exit_requested s then Inr s
      else if length (timer_list s) \<le> 0 then Inr s
      else if target (last (timer_list s)) > Num now then Inr s
      else
        (case expire_one now bs s of
           Inl e \<Rightarrow> Inl e
         | Inr (bs1, s3) \<Rightarrow> expire_loop sanity now bs1 s3))"

text \<open>
  \<^verbatim>\<open>expire_timers\<close>: \<open>now\<close> is the one clock reading of the call, \<open>bs\<close> what the
  callbacks it invokes will do. The holder is zeroed after the loop.
\<close>

definition expire_timers :: "real \<Rightarrow> behaviour list \<Rightarrow> state \<Rightarrow> state result" where
  "expire_timers now bs s =
     (case expire_loop MAX_EXPIRYS now bs s of
        Inl e \<Rightarrow> Inl e
      | Inr s1 \<Rightarrow> Inr (s1\<lparr>timer_expiring := zero_timer\<rparr>))"

subsection \<open>The loop\<close>

text \<open>
  \<^verbatim>\<open>poll\<close>: the environment gives the return code and the \<^verbatim>\<open>revents\<close> the call leaves
  in the entries, first entry first; an entry it gives no value for keeps what it had.
  The two are separate inputs, and the code reads the \<^verbatim>\<open>revents\<close> whatever the return
  code, 0 apart; \<open>quiet_poll\<close> below is what a \<^verbatim>\<open>poll\<close> that times out or fails does.
\<close>

fun write_revents :: "16 word list \<Rightarrow> pollfd list \<Rightarrow> pollfd list" where
  "write_revents (r # rs) (p # ps) = p\<lparr>revents := r\<rparr> # write_revents rs ps"
| "write_revents rs ps = ps"

definition poll :: "16 word list \<Rightarrow> int \<Rightarrow> state \<Rightarrow> state" where
  "poll revs timeout s =
     (emit (Poll_wait (length (poll_list s)) timeout) s)
       \<lparr>poll_list := write_revents revs (poll_list s)\<rparr>"

text \<open>
  The timeout of the wait, or \<open>None\<close> where the loop breaks; \<open>t\<close> is the pointer
  \<^verbatim>\<open>find_nearest_timer\<close> returned. The clamping leaves a NaN difference as it is, and
  the conversion \<^verbatim>\<open>(int) diff\<close> of a NaN is undefined.
\<close>

definition poll_timeout :: "nat option \<Rightarrow> real \<Rightarrow> state \<Rightarrow> int option result" where
  "poll_timeout t now s =
     (case t of
        Some j \<Rightarrow>
          (let diff = target (timer_slot s j) - Num now;
               diff1 = (if diff < Num MIN_WAIT then Num MIN_WAIT
                        else if diff > Num MAX_WAIT then Num MAX_WAIT else diff)
           in case diff1 of
                Num r \<Rightarrow> Inr (Some \<lfloor>r\<rfloor>)
              | _ \<Rightarrow> Inl (Undefined_double_to_int, s))
      | None \<Rightarrow> if length (poll_list s) = 0 then Inr None else Inr (Some \<lfloor>MAX_WAIT\<rfloor>))"

definition clear_revents :: "nat \<Rightarrow> state \<Rightarrow> state" where
  "clear_revents i s =
     (if i < length (poll_list s)
      then s\<lparr>poll_list := (poll_list s)[i := (poll_list s ! i)\<lparr>revents := 0\<rparr>]\<rparr>
      else s)"

text \<open>
  The protected call of \<^verbatim>\<open>fdPollHandler\<close> for the entry at index \<open>i\<close>. When it fails, the
  console report reads \<^verbatim>\<open>t->id\<close> and \<^verbatim>\<open>pfd->fd\<close>, with \<open>t\<close> the pointer taken before the
  wait.
\<close>

definition call_fd_handler ::
  "nat option \<Rightarrow> nat \<Rightarrow> behaviour list \<Rightarrow> state \<Rightarrow> (behaviour list \<times> state) result" where
  "call_fd_handler t i bs s =
     (let pfd = poll_slot s i;
          (b, bs1) = next_behaviour bs;
          s1 = run_ops (calls b) (emit (Call_fd (fd pfd) (sint (revents pfd))) s)
      in if throws b
         then (case t of
                 None \<Rightarrow> Inl (Null_dereference, s1)
               | Some j \<Rightarrow>
                   Inr (bs1, emit (Console_fd (id_of (timer_slot s1 j)) (fd (poll_slot s1 i))) s1))
         else Inr (bs1, s1))"

text \<open>
  \<^verbatim>\<open>for (i = 0; i < n; i++)\<close> over the poll list; the third argument is \<^verbatim>\<open>n - i\<close>.
\<close>

fun dispatch_loop ::
  "nat option \<Rightarrow> nat \<Rightarrow> nat \<Rightarrow> behaviour list \<Rightarrow> state \<Rightarrow> state result" where
  "dispatch_loop t i 0 bs s = Inr s"
| "dispatch_loop t i (Suc k) bs s =
     (if fd (poll_slot s i) = 0 then dispatch_loop t (Suc i) k bs s
      else if revents (poll_slot s i) \<noteq> 0
      then (case call_fd_handler t i bs s of
              Inl e \<Rightarrow> Inl e
            | Inr (bs1, s1) \<Rightarrow> dispatch_loop t (Suc i) k bs1 (clear_revents i s1))
      else dispatch_loop t (Suc i) k bs s)"

datatype loop_status = RUNNING | STOPPED

text \<open>What the environment does in one iteration of the loop.\<close>

record iteration_env =
  expire_now :: real
  timer_behaviours :: "behaviour list"
  poll_now :: real
  poll_rc :: int
  poll_revents :: "16 word list"
  fd_behaviours :: "behaviour list"

text \<open>The body of \<^verbatim>\<open>for (;;)\<close> in \<^verbatim>\<open>eventloop_run\<close>; \<open>STOPPED\<close> is a \<^verbatim>\<open>break\<close>.\<close>

definition loop_iteration :: "iteration_env \<Rightarrow> state \<Rightarrow> (loop_status \<times> state) result" where
  "loop_iteration env s =
     (case expire_timers (expire_now env) (timer_behaviours env) s of
        Inl e \<Rightarrow> Inl e
      | Inr s1 \<Rightarrow>
          if exit_requested s1 then Inr (STOPPED, s1)
          else
            (let s2 = compact_poll_list s1;
                 t = find_nearest_timer s2
             in case poll_timeout t (poll_now env) s2 of
                  Inl e \<Rightarrow> Inl e
                | Inr None \<Rightarrow> Inr (STOPPED, s2)
                | Inr (Some timeout) \<Rightarrow>
                    (let s3 = poll (poll_revents env) timeout s2;
                         n = (if poll_rc env = 0 then 0 else length (poll_list s3))
                     in case dispatch_loop t 0 n (fd_behaviours env) s3 of
                          Inl e \<Rightarrow> Inl e
                        | Inr s4 \<Rightarrow> Inr (RUNNING, s4))))"

text \<open>
  \<^verbatim>\<open>eventloop_run\<close>. The loop has no bound of its own: it runs as long as the
  environment goes on, one \<open>iteration_env\<close> per iteration, and \<open>None\<close> is a loop that has
  not left after the last of them.
\<close>

fun eventloop_run :: "iteration_env list \<Rightarrow> state \<Rightarrow> state result option" where
  "eventloop_run [] s = None"
| "eventloop_run (env # envs) s =
     (case loop_iteration env s of
        Inl e \<Rightarrow> Some (Inl e)
      | Inr (STOPPED, s1) \<Rightarrow> Some (Inr s1)
      | Inr (RUNNING, s1) \<Rightarrow> eventloop_run envs s1)"

subsection \<open>Histories\<close>

text \<open>
  What can happen to the state: a call from script code running outside the loop, a call
  of \<^verbatim>\<open>expire_timers\<close>, or an iteration of the loop. \<open>outcome\<close> is the state a call
  leaves, thrown or not.
\<close>

definition outcome :: "state result \<Rightarrow> state" where
  "outcome r = (case r of Inl (e, s) \<Rightarrow> s | Inr s \<Rightarrow> s)"

datatype action =
    Api op
  | Expire real "behaviour list"
  | Iterate iteration_env

fun after_action :: "action \<Rightarrow> state \<Rightarrow> state" where
  "after_action (Api x) s = run_op x s"
| "after_action (Expire now bs) s = outcome (expire_timers now bs s)"
| "after_action (Iterate env) s = outcome (map_sum id snd (loop_iteration env s))"

fun run_actions :: "action list \<Rightarrow> state \<Rightarrow> state" where
  "run_actions [] s = s"
| "run_actions (a # as) s = run_actions as (after_action a s)"

subsection \<open>Observations\<close>

text \<open>The targets of the array in index order, and the ids.\<close>

definition targets :: "state \<Rightarrow> double list" where
  "targets s = map target (timer_list s)"

definition timer_ids :: "state \<Rightarrow> int list" where
  "timer_ids s = map id_of (timer_list s)"

text \<open>How often the callback of timer \<open>i\<close> has been invoked, and timer callbacks in all.\<close>

definition fires :: "int \<Rightarrow> state \<Rightarrow> nat" where
  "fires i s = count_list (trace s) (Call_timer i)"

fun is_timer_call :: "event \<Rightarrow> bool" where
  "is_timer_call (Call_timer i) = True"
| "is_timer_call e = False"

fun is_fd_call :: "event \<Rightarrow> bool" where
  "is_fd_call (Call_fd f r) = True"
| "is_fd_call e = False"

definition timer_calls :: "state \<Rightarrow> nat" where
  "timer_calls s = length (filter is_timer_call (trace s))"

definition fd_calls :: "state \<Rightarrow> nat" where
  "fd_calls s = length (filter is_fd_call (trace s))"

fun is_poll_wait :: "event \<Rightarrow> bool" where
  "is_poll_wait (Poll_wait n t) = True"
| "is_poll_wait e = False"

fun is_timer_event :: "event \<Rightarrow> bool" where
  "is_timer_event (Call_timer i) = True"
| "is_timer_event (Console_timer i) = True"
| "is_timer_event e = False"

text \<open>How often \<^verbatim>\<open>poll\<close> has been called.\<close>

definition waits :: "state \<Rightarrow> nat" where
  "waits s = length (filter is_poll_wait (trace s))"

text \<open>
  From \<open>s\<close> to \<open>s'\<close> the trace has grown by timer calls and their console reports only.
\<close>

definition timer_events_since :: "state \<Rightarrow> state \<Rightarrow> bool" where
  "timer_events_since s s' \<longleftrightarrow>
     (\<exists>evs. trace s' = trace s @ evs \<and> list_all is_timer_event evs)"

subsection \<open>Invariants\<close>

text \<open>
  The order \<^verbatim>\<open>bubble_last_timer\<close> keeps: among the timers whose target is not NaN, none
  has a target smaller than one after it in the array, so that of them the timer that
  expires first is the last. A NaN target fails every comparison of the bubbling and has
  no place in the order.
\<close>

definition later_first :: "ev_timer list \<Rightarrow> bool" where
  "later_first ts =
     sorted_wrt (\<lambda>a b. target b \<le> target a) (filter (\<lambda>t. target t \<noteq> NaN) ts)"

text \<open>
  What holds of the timer list between any two steps: it is ordered, its ids are
  distinct, positive and below the counter, and each has its \<^verbatim>\<open>eventTimers\<close> entry.
\<close>

definition timers_ok :: "state \<Rightarrow> bool" where
  "timers_ok s \<longleftrightarrow>
     later_first (timer_list s) \<and> distinct (timer_ids s) \<and> 0 < timer_next_id s \<and>
     (\<forall>i\<in>set (timer_ids s). 0 < i \<and> i < timer_next_id s \<and> eventTimers s i \<noteq> None)"

text \<open>What holds of the holder while the callback of its timer runs.\<close>

definition holder_ok :: "state \<Rightarrow> bool" where
  "holder_ok s \<longleftrightarrow>
     0 < id_of (timer_expiring s) \<and> id_of (timer_expiring s) < timer_next_id s \<and>
     id_of (timer_expiring s) \<notin> set (timer_ids s) \<and>
     eventTimers s (id_of (timer_expiring s)) \<noteq> None"

text \<open>An id that was given out and is gone from the list and from \<^verbatim>\<open>eventTimers\<close>.\<close>

definition absent :: "int \<Rightarrow> state \<Rightarrow> bool" where
  "absent i s \<longleftrightarrow> i \<notin> set (timer_ids s) \<and> i < timer_next_id s \<and> eventTimers s i = None"

text \<open>
  What the trace says of timers that have not fired: no callback has been invoked for an
  id not yet given out, nor for a one-shot timer that is still in the list.
\<close>

definition unfired :: "state \<Rightarrow> bool" where
  "unfired s \<longleftrightarrow>
     (\<forall>i. timer_next_id s \<le> i \<longrightarrow> fires i s = 0) \<and>
     (\<forall>t\<in>set (timer_list s). oneshot t \<longrightarrow> fires (id_of t) s = 0)"

text \<open>The struct \<^verbatim>\<open>create_timer\<close> fills in.\<close>

definition new_timer :: "int \<Rightarrow> real \<Rightarrow> double \<Rightarrow> bool \<Rightarrow> ev_timer" where
  "new_timer i now d one =
     \<lparr>id_of = i, target = Num now + (if d < Num MIN_DELAY then Num MIN_DELAY else d),
      delay = (if d < Num MIN_DELAY then Num MIN_DELAY else d), oneshot = one, removed = False\<rparr>"

text \<open>
  A property of the state that script calls keep, and that does not depend on the poll
  list or on trace entries other than timer calls.
\<close>

definition timer_property :: "(state \<Rightarrow> bool) \<Rightarrow> bool" where
  "timer_property P \<longleftrightarrow>
     (\<forall>x s. P s \<longrightarrow> P (run_op x s)) \<and>
     (\<forall>e s. \<not> is_timer_call e \<longrightarrow> P (emit e s) = P s) \<and>
     (\<forall>ps s. P (s\<lparr>poll_list := ps\<rparr>) = P s)"



text \<open>
  What a callback can do to the poll list: an entry keeps its \<^verbatim>\<open>revents\<close>, and its \<^verbatim>\<open>fd\<close>
  unless it becomes 0; new entries, without \<^verbatim>\<open>revents\<close>, come after the old ones.
\<close>

definition tombstoned :: "pollfd \<Rightarrow> pollfd \<Rightarrow> bool" where
  "tombstoned p q \<longleftrightarrow> revents q = revents p \<and> (fd q = fd p \<or> fd q = 0)"

definition poll_grows :: "state \<Rightarrow> state \<Rightarrow> bool" where
  "poll_grows s s' \<longleftrightarrow>
     (\<exists>qs new. poll_list s' = qs @ new \<and> list_all2 tombstoned (poll_list s) qs \<and>
                (\<forall>p\<in>set new. revents p = 0))"






section \<open>Properties\<close>

subsection \<open>Bubbling the last timer\<close>

lemma bubble_loop_set_aux:
  "set (bubble_loop (length pre) (pre @ x # post)) = set (pre @ x # post)
   \<and> length (bubble_loop (length pre) (pre @ x # post)) = length (pre @ x # post)
   \<and> (distinct (map id_of (pre @ x # post)) \<longrightarrow> distinct (map id_of (bubble_loop (length pre) (pre @ x # post))))"
proof (induction pre arbitrary: post rule: rev_induct)
  case Nil
  then show ?case by simp
next
  case (snoc p pre)
  have upd: "((pre @ [p]) @ x # post)[length pre := x, Suc (length pre) := p] = pre @ x # p # post"
    by (simp add: list_update_append)
  have nth1: "((pre @ [p]) @ x # post) ! Suc (length pre) = x"
    by (simp add: nth_append)
  have nth2: "((pre @ [p]) @ x # post) ! length pre = p"
    by (simp add: nth_append)
  show ?case
    using snoc.IH [of "p # post"]
    by (simp only: length_append_singleton bubble_loop.simps nth1 nth2 upd) auto
qed

lemma double_le_trans: "(a::double) \<le> b \<Longrightarrow> b \<le> c \<Longrightarrow> a \<le> c"
  by (cases a; cases b; cases c) simp_all

lemma double_le_total: "(a::double) \<noteq> NaN \<Longrightarrow> b \<noteq> NaN \<Longrightarrow> \<not> a \<le> b \<Longrightarrow> b \<le> a"
  by (cases a; cases b) simp_all

lemma double_le_number: "(a::double) \<le> b \<Longrightarrow> a \<noteq> NaN \<and> b \<noteq> NaN"
  by (cases a; cases b) simp_all

lemma later_first_append:
  "later_first (xs @ ys) \<longleftrightarrow>
     later_first xs \<and> later_first ys \<and>
     (\<forall>a\<in>set xs. \<forall>b\<in>set ys. target a \<noteq> NaN \<longrightarrow> target b \<noteq> NaN \<longrightarrow> target b \<le> target a)"
  by (auto simp: later_first_def sorted_wrt_append)

lemma later_first_Cons:
  "later_first (x # ys) \<longleftrightarrow>
     later_first ys \<and>
     (target x \<noteq> NaN \<longrightarrow> (\<forall>b\<in>set ys. target b \<noteq> NaN \<longrightarrow> target b \<le> target x))"
  by (auto simp: later_first_def)

lemma later_first_Nil [simp]: "later_first []"
  by (simp add: later_first_def)

lemma bubble_loop_sorted_aux:
  "later_first (pre @ post) \<Longrightarrow>
   (target x \<noteq> NaN \<longrightarrow> (\<forall>q\<in>set post. target q \<noteq> NaN \<longrightarrow> target q \<le> target x)) \<Longrightarrow>
   later_first (bubble_loop (length pre) (pre @ x # post))"
proof (induction pre arbitrary: post rule: rev_induct)
  case Nil
  then show ?case by (simp add: later_first_Cons)
next
  case (snoc p pre)
  have upd: "((pre @ [p]) @ x # post)[length pre := x, Suc (length pre) := p] = pre @ x # p # post"
    by (simp add: list_update_append)
  have nth1: "((pre @ [p]) @ x # post) ! Suc (length pre) = x"
    by (simp add: nth_append)
  have nth2: "((pre @ [p]) @ x # post) ! length pre = p"
    by (simp add: nth_append)
  from snoc.prems(1) have sorted: "later_first pre" "later_first post"
    and pre_p: "\<forall>a\<in>set pre. target a \<noteq> NaN \<longrightarrow> target p \<noteq> NaN \<longrightarrow> target p \<le> target a"
    and pre_post: "\<forall>a\<in>set pre. \<forall>b\<in>set post.
                     target a \<noteq> NaN \<longrightarrow> target b \<noteq> NaN \<longrightarrow> target b \<le> target a"
    and p_post: "\<forall>b\<in>set post. target p \<noteq> NaN \<longrightarrow> target b \<noteq> NaN \<longrightarrow> target b \<le> target p"
    by (auto simp: later_first_append later_first_Cons)
  show ?case
  proof (cases "target x \<le> target p")
    case True
    then have num: "target x \<noteq> NaN" "target p \<noteq> NaN"
      using double_le_number by blast+
    have "\<forall>a\<in>set pre. target a \<noteq> NaN \<longrightarrow> target x \<le> target a"
      using pre_p num True by (blast intro: double_le_trans)
    then have "later_first (pre @ p # x # post)"
      using sorted pre_p pre_post p_post snoc.prems(2) num True
      by (auto simp: later_first_append later_first_Cons)
    then have "later_first ((pre @ [p]) @ x # post)"
      by simp
    then show ?thesis
      by (simp only: length_append_singleton bubble_loop.simps nth1 nth2 True if_True)
  next
    case False
    have "later_first (bubble_loop (length pre) (pre @ x # p # post))"
    proof (rule snoc.IH)
      show "later_first (pre @ p # post)" using snoc.prems(1) by simp
      show "target x \<noteq> NaN \<longrightarrow> (\<forall>q\<in>set (p # post). target q \<noteq> NaN \<longrightarrow> target q \<le> target x)"
        using snoc.prems(2) False by (auto intro: double_le_total)
    qed
    then show ?thesis
      by (simp only: length_append_singleton bubble_loop.simps nth1 nth2 upd False if_False)
  qed
qed

lemma bubble_append_sorted:
  "later_first ts \<Longrightarrow> later_first (bubble_loop (length ts) (ts @ [t]))"
  using bubble_loop_sorted_aux [of ts "[]" t] by simp

lemma bubble_append_set:
  "set (bubble_loop (length ts) (ts @ [t])) = insert t (set ts)"
  using bubble_loop_set_aux [of ts t "[]"] by simp

lemma bubble_append_length:
  "length (bubble_loop (length ts) (ts @ [t])) = Suc (length ts)"
  using bubble_loop_set_aux [of ts t "[]"] by simp

lemma bubble_append_distinct:
  "distinct (map id_of ts) \<Longrightarrow> id_of t \<notin> id_of ` set ts \<Longrightarrow>
   distinct (map id_of (bubble_loop (length ts) (ts @ [t])))"
  using bubble_loop_set_aux [of ts t "[]"] by simp

subsection \<open>Script calls\<close>

lemma create_timer_full:
  "MAX_TIMERS \<le> length (timer_list s) \<Longrightarrow>
   create_timer now f d one s = Inl (RangeError_out_of_timer_slots, s)"
  by (simp add: create_timer_def)

lemma create_timer_ok:
  "length (timer_list s) < MAX_TIMERS \<Longrightarrow>
   create_timer now f d one s =
     Inr (timer_next_id s,
          s\<lparr>timer_list := bubble_loop (length (timer_list s))
                            (timer_list s @ [new_timer (timer_next_id s) now d one]),
            timer_next_id := timer_next_id s + 1,
            eventTimers := (eventTimers s)(timer_next_id s \<mapsto> f)\<rparr>)"
  by (simp add: create_timer_def bubble_last_timer_def new_timer_def Let_def)

lemma run_op_create:
  "run_op (CreateTimer now f d one) s =
     (if MAX_TIMERS \<le> length (timer_list s) then s
      else s\<lparr>timer_list := bubble_loop (length (timer_list s))
                            (timer_list s @ [new_timer (timer_next_id s) now d one]),
            timer_next_id := timer_next_id s + 1,
            eventTimers := (eventTimers s)(timer_next_id s \<mapsto> f)\<rparr>)"
  by (simp add: create_timer_full create_timer_ok)

lemma id_of_new_timer [simp]: "id_of (new_timer i now d one) = i"
  by (simp add: new_timer_def)

lemma delete_scan_Some:
  "delete_scan i ts = Some us \<Longrightarrow>
     set us \<subseteq> set ts \<and> (later_first ts \<longrightarrow> later_first us) \<and>
     (distinct (map id_of ts) \<longrightarrow> distinct (map id_of us) \<and> i \<notin> id_of ` set us)"
proof (induction ts arbitrary: us)
  case Nil
  then show ?case by simp
next
  case (Cons t ts)
  show ?case
  proof (cases "id_of t = i")
    case True
    with Cons.prems have "us = ts" by simp
    then show ?thesis using True by (auto simp: later_first_def)
  next
    case False
    with Cons.prems obtain vs where vs: "delete_scan i ts = Some vs" "us = t # vs"
      by auto
    from Cons.IH [OF vs(1)] show ?thesis
      using False vs(2) by (auto simp: later_first_def)
  qed
qed

lemma run_op_delete:
  "run_op (DeleteTimer i) s =
     (if id_of (timer_expiring s) = i
      then s\<lparr>timer_expiring := (timer_expiring s)\<lparr>removed := True\<rparr>\<rparr>
      else case delete_scan i (timer_list s) of
             None \<Rightarrow> s
           | Some ts \<Rightarrow> s\<lparr>timer_list := ts, eventTimers := (eventTimers s)(i := None)\<rparr>)"
  by (simp add: delete_timer_def split: option.splits)

lemma run_op_listen_timers:
  "timer_list (run_op (ListenFd f ev) s) = timer_list s \<and>
   timer_expiring (run_op (ListenFd f ev) s) = timer_expiring s \<and>
   timer_next_id (run_op (ListenFd f ev) s) = timer_next_id s \<and>
   eventTimers (run_op (ListenFd f ev) s) = eventTimers s \<and>
   exit_requested (run_op (ListenFd f ev) s) = exit_requested s \<and>
   trace (run_op (ListenFd f ev) s) = trace s"
  by (simp add: listen_fd_def split: option.splits)

lemma run_op_request: "run_op RequestExit s = s\<lparr>exit_requested := True\<rparr>"
  by (simp add: request_exit_def)

declare run_op.simps [simp del]

lemma run_op_trace [simp]: "trace (run_op x s) = trace s"
  by (cases x) (simp_all add: run_op_create run_op_delete run_op_listen_timers run_op_request split: option.splits)

lemma run_op_holder_id [simp]: "id_of (timer_expiring (run_op x s)) = id_of (timer_expiring s)"
  by (cases x) (simp_all add: run_op_create run_op_delete run_op_listen_timers run_op_request split: option.splits)

lemma run_op_holder:
  "timer_expiring (run_op x s) = timer_expiring s \<or>
   timer_expiring (run_op x s) = (timer_expiring s)\<lparr>removed := True\<rparr>"
  by (cases x) (simp_all add: run_op_create run_op_delete run_op_listen_timers run_op_request split: option.splits)

lemma run_op_next_id: "timer_next_id s \<le> timer_next_id (run_op x s)"
  by (cases x) (simp_all add: run_op_create run_op_delete run_op_listen_timers run_op_request split: option.splits)

lemma run_op_exit: "exit_requested s \<Longrightarrow> exit_requested (run_op x s)"
  by (cases x) (simp_all add: run_op_create run_op_delete run_op_listen_timers run_op_request split: option.splits)

lemma run_op_timers_ok: "timers_ok s \<Longrightarrow> timers_ok (run_op x s)"
proof (cases x)
  case (CreateTimer now f d one)
  assume ok: "timers_ok s"
  show ?thesis
  proof (cases "MAX_TIMERS \<le> length (timer_list s)")
    case True
    then show ?thesis using ok CreateTimer by (simp add: run_op_create)
  next
    case False
    have fresh: "timer_next_id s \<notin> id_of ` set (timer_list s)"
      using ok by (auto simp: timers_ok_def timer_ids_def)
    have "later_first (bubble_loop (length (timer_list s))
             (timer_list s @ [new_timer (timer_next_id s) now d one]))"
      using ok by (simp add: timers_ok_def bubble_append_sorted)
    moreover have "distinct (map id_of (bubble_loop (length (timer_list s))
             (timer_list s @ [new_timer (timer_next_id s) now d one])))"
      using ok fresh by (simp add: timers_ok_def timer_ids_def bubble_append_distinct)
    ultimately show ?thesis
      using ok False CreateTimer
      by (auto simp: run_op_create timers_ok_def timer_ids_def bubble_append_set)
  qed
next
  case (DeleteTimer i)
  assume ok: "timers_ok s"
  show ?thesis
  proof (cases "delete_scan i (timer_list s)")
    case None
    then show ?thesis using ok DeleteTimer
      by (auto simp: run_op_delete timers_ok_def timer_ids_def)
  next
    case (Some us)
    from delete_scan_Some [OF Some] show ?thesis
      using ok DeleteTimer Some
      by (auto simp: run_op_delete timers_ok_def timer_ids_def)
  qed
next
  case (ListenFd f ev)
  assume "timers_ok s"
  then show ?thesis using ListenFd
    by (simp add: timers_ok_def timer_ids_def run_op_listen_timers)
next
  case RequestExit
  assume "timers_ok s"
  then show ?thesis using RequestExit
    by (simp add: timers_ok_def timer_ids_def run_op_request)
qed

lemma run_op_holder_ok: "timers_ok s \<Longrightarrow> holder_ok s \<Longrightarrow> holder_ok (run_op x s)"
proof (cases x)
  case (CreateTimer now f d one)
  assume "timers_ok s" "holder_ok s"
  then show ?thesis using CreateTimer
    by (auto simp: run_op_create holder_ok_def timer_ids_def bubble_append_set)
next
  case (DeleteTimer i)
  assume ok: "timers_ok s" "holder_ok s"
  show ?thesis
  proof (cases "delete_scan i (timer_list s)")
    case None
    then show ?thesis using ok DeleteTimer
      by (auto simp: run_op_delete holder_ok_def timer_ids_def)
  next
    case (Some us)
    from delete_scan_Some [OF Some] show ?thesis
      using ok DeleteTimer Some
      by (auto simp: run_op_delete holder_ok_def timer_ids_def)
  qed
next
  case (ListenFd f ev)
  assume "timers_ok s" "holder_ok s"
  then show ?thesis using ListenFd
    by (simp add: holder_ok_def timer_ids_def run_op_listen_timers)
next
  case RequestExit
  assume "timers_ok s" "holder_ok s"
  then show ?thesis using RequestExit
    by (simp add: holder_ok_def timer_ids_def run_op_request)
qed

lemma run_op_absent: "absent i s \<Longrightarrow> absent i (run_op x s)"
proof (cases x)
  case (CreateTimer now f d one)
  assume "absent i s"
  then show ?thesis using CreateTimer
    by (auto simp: run_op_create absent_def timer_ids_def bubble_append_set)
next
  case (DeleteTimer j)
  assume ok: "absent i s"
  show ?thesis
  proof (cases "delete_scan j (timer_list s)")
    case None
    then show ?thesis using ok DeleteTimer
      by (auto simp: run_op_delete absent_def timer_ids_def)
  next
    case (Some us)
    from delete_scan_Some [OF Some] show ?thesis
      using ok DeleteTimer Some
      by (auto simp: run_op_delete absent_def timer_ids_def)
  qed
next
  case (ListenFd f ev)
  assume "absent i s"
  then show ?thesis using ListenFd
    by (simp add: absent_def timer_ids_def run_op_listen_timers)
next
  case RequestExit
  assume "absent i s"
  then show ?thesis using RequestExit
    by (simp add: absent_def timer_ids_def run_op_request)
qed

lemma run_ops_trace [simp]: "trace (run_ops xs s) = trace s"
  by (induction xs arbitrary: s) simp_all

lemma run_ops_holder_id [simp]:
  "id_of (timer_expiring (run_ops xs s)) = id_of (timer_expiring s)"
  by (induction xs arbitrary: s) simp_all

lemma run_ops_holder:
  "timer_expiring (run_ops xs s) = timer_expiring s \<or>
   timer_expiring (run_ops xs s) = (timer_expiring s)\<lparr>removed := True\<rparr>"
proof (induction xs arbitrary: s)
  case Nil
  then show ?case by simp
next
  case (Cons x xs)
  from Cons.IH [of "run_op x s"] run_op_holder [of x s] show ?case
    by auto
qed



lemma run_ops_next_id: "timer_next_id s \<le> timer_next_id (run_ops xs s)"
proof (induction xs arbitrary: s)
  case Nil
  then show ?case by simp
next
  case (Cons x xs)
  from Cons.IH [of "run_op x s"] run_op_next_id [of s x] show ?case by simp
qed

lemma run_ops_exit: "exit_requested s \<Longrightarrow> exit_requested (run_ops xs s)"
  by (induction xs arbitrary: s) (simp_all add: run_op_exit)

lemma run_ops_timers_ok: "timers_ok s \<Longrightarrow> timers_ok (run_ops xs s)"
  by (induction xs arbitrary: s) (simp_all add: run_op_timers_ok)

lemma run_ops_holder_ok:
  "timers_ok s \<Longrightarrow> holder_ok s \<Longrightarrow> holder_ok (run_ops xs s)"
  by (induction xs arbitrary: s) (simp_all add: run_op_timers_ok run_op_holder_ok)

lemma run_ops_absent: "absent i s \<Longrightarrow> absent i (run_ops xs s)"
  by (induction xs arbitrary: s) (simp_all add: run_op_absent)

subsection \<open>The parts of an expiry\<close>

lemma emit_fields [simp]:
  "timer_list (emit e s) = timer_list s"
  "timer_expiring (emit e s) = timer_expiring s"
  "timer_next_id (emit e s) = timer_next_id s"
  "poll_list (emit e s) = poll_list s"
  "exit_requested (emit e s) = exit_requested s"
  "eventTimers (emit e s) = eventTimers s"
  "trace (emit e s) = trace s @ [e]"
  by (simp_all add: emit_def)

lemma emit_timers_ok [simp]: "timers_ok (emit e s) = timers_ok s"
  by (simp add: timers_ok_def timer_ids_def)

lemma emit_holder_ok [simp]: "holder_ok (emit e s) = holder_ok s"
  by (simp add: holder_ok_def timer_ids_def)

lemma emit_absent [simp]: "absent i (emit e s) = absent i s"
  by (simp add: absent_def timer_ids_def)

lemma begin_expiry_fields:
  "timer_list (begin_expiry now s) = butlast (timer_list s)"
  "id_of (timer_expiring (begin_expiry now s)) = id_of (last (timer_list s))"
  "timer_next_id (begin_expiry now s) = timer_next_id s"
  "eventTimers (begin_expiry now s) = eventTimers s"
  "trace (begin_expiry now s) = trace s"
  "exit_requested (begin_expiry now s) = exit_requested s"
  "poll_list (begin_expiry now s) = poll_list s"
  by (simp_all add: begin_expiry_def Let_def)

lemma begin_expiry_holder:
  "timer_expiring (begin_expiry now s) =
     (if oneshot (last (timer_list s)) then (last (timer_list s))\<lparr>removed := True\<rparr>
      else (last (timer_list s))\<lparr>target := Num now + delay (last (timer_list s))\<rparr>)"
  by (simp add: begin_expiry_def Let_def)

lemma later_first_butlast: "later_first ts \<Longrightarrow> later_first (butlast ts)"
proof (cases "ts = []")
  case True
  then show ?thesis by simp
next
  case False
  assume "later_first ts"
  then have "later_first (butlast ts @ [last ts])" using False by simp
  then show ?thesis by (simp add: later_first_append)
qed

lemma begin_expiry_ok:
  assumes "timers_ok s" "timer_list s \<noteq> []"
  shows "timers_ok (begin_expiry now s) \<and> holder_ok (begin_expiry now s)"
proof -
  obtain ts t where ts: "timer_list s = ts @ [t]"
    using assms(2) by (metis append_butlast_last_id)
  have bl: "butlast (timer_list s) = ts" "last (timer_list s) = t"
    by (simp_all add: ts)
  have "later_first ts"
    using assms(1) later_first_butlast [of "timer_list s"] by (simp add: timers_ok_def bl)
  then show ?thesis
    using assms(1)
    by (auto simp: timers_ok_def holder_ok_def timer_ids_def begin_expiry_fields bl ts)
qed

lemma begin_expiry_absent:
  assumes "absent i s" "timer_list s \<noteq> []"
  shows "absent i (begin_expiry now s) \<and> id_of (timer_expiring (begin_expiry now s)) \<noteq> i"
proof -
  obtain ts t where ts: "timer_list s = ts @ [t]"
    using assms(2) by (metis append_butlast_last_id)
  have bl: "butlast (timer_list s) = ts" "last (timer_list s) = t"
    by (simp_all add: ts)
  show ?thesis
    using assms(1)
    by (auto simp: absent_def timer_ids_def begin_expiry_fields bl ts)
qed

lemma call_timer_cases:
  "call_timer bs s = (bs1, s2) \<Longrightarrow>
     (eventTimers s (id_of (timer_expiring s)) = None \<and> bs1 = bs \<and>
        s2 = emit (Console_timer (id_of (timer_expiring s))) s)
   \<or> (eventTimers s (id_of (timer_expiring s)) \<noteq> None \<and> bs1 = snd (next_behaviour bs) \<and>
        (let s1 = run_ops (calls (fst (next_behaviour bs)))
                    (emit (Call_timer (id_of (timer_expiring s))) s)
         in s2 = (if throws (fst (next_behaviour bs))
                  then emit (Console_timer (id_of (timer_expiring s))) s1 else s1)))"
  by (auto simp: call_timer_def Let_def split: option.splits prod.splits)

lemma call_timer_holder_id:
  "call_timer bs s = (bs1, s2) \<Longrightarrow> id_of (timer_expiring s2) = id_of (timer_expiring s)"
  by (drule call_timer_cases) (auto simp: Let_def split: if_splits)

lemma call_timer_ok:
  "call_timer bs s = (bs1, s2) \<Longrightarrow> timers_ok s \<Longrightarrow> holder_ok s \<Longrightarrow>
   timers_ok s2 \<and> holder_ok s2"
  by (drule call_timer_cases)
     (auto simp: Let_def run_ops_timers_ok run_ops_holder_ok split: if_splits)

lemma call_timer_absent:
  "call_timer bs s = (bs1, s2) \<Longrightarrow> absent i s \<Longrightarrow> absent i s2"
  by (drule call_timer_cases) (auto simp: Let_def run_ops_absent split: if_splits)

lemma call_timer_fires_other:
  "call_timer bs s = (bs1, s2) \<Longrightarrow> id_of (timer_expiring s) \<noteq> i \<Longrightarrow> fires i s2 = fires i s"
  by (drule call_timer_cases) (auto simp: Let_def fires_def split: if_splits)


lemma call_timer_calls:
  "call_timer bs s = (bs1, s2) \<Longrightarrow> timer_calls s2 \<le> Suc (timer_calls s)"
  by (drule call_timer_cases) (auto simp: Let_def timer_calls_def split: if_splits)


lemma finish_expiry_cases:
  "(removed (timer_expiring s) \<and>
      finish_expiry s = Inr (s\<lparr>eventTimers := (eventTimers s)(id_of (timer_expiring s) := None)\<rparr>))
   \<or> (\<not> removed (timer_expiring s) \<and> MAX_TIMERS \<le> length (timer_list s) \<and>
      finish_expiry s = Inl (RangeError_out_of_timer_slots, s))
   \<or> (\<not> removed (timer_expiring s) \<and> length (timer_list s) < MAX_TIMERS \<and>
      finish_expiry s =
        Inr (s\<lparr>timer_list := bubble_loop (length (timer_list s))
                                (timer_list s @ [timer_expiring s])\<rparr>))"
  by (auto simp: finish_expiry_def bubble_last_timer_def Let_def)

lemma finish_expiry_ok:
  assumes "timers_ok s" "holder_ok s"
  shows "timers_ok (outcome (finish_expiry s))"
proof -
  have fresh: "id_of (timer_expiring s) \<notin> id_of ` set (timer_list s)"
    using assms(2) by (simp add: holder_ok_def timer_ids_def)
  have fresh': "\<forall>t\<in>set (timer_list s). id_of t \<noteq> id_of (timer_expiring s)"
  proof
    fix t assume "t \<in> set (timer_list s)"
    then have "id_of t \<in> id_of ` set (timer_list s)" by (rule imageI)
    with fresh show "id_of t \<noteq> id_of (timer_expiring s)" by metis
  qed
  have dropped: "timers_ok (s\<lparr>eventTimers := (eventTimers s)(id_of (timer_expiring s) := None)\<rparr>)"
    using assms(1) fresh' by (simp add: timers_ok_def timer_ids_def)
  have "later_first (bubble_loop (length (timer_list s)) (timer_list s @ [timer_expiring s]))"
    using assms(1) by (simp add: timers_ok_def bubble_append_sorted)
  moreover have "distinct (map id_of (bubble_loop (length (timer_list s))
             (timer_list s @ [timer_expiring s])))"
    using assms(1) fresh by (simp add: timers_ok_def timer_ids_def bubble_append_distinct)
  ultimately have requeue: "timers_ok (s\<lparr>timer_list := bubble_loop (length (timer_list s))
                                (timer_list s @ [timer_expiring s])\<rparr>)"
    using assms by (auto simp: timers_ok_def holder_ok_def timer_ids_def bubble_append_set)
  show ?thesis
    using finish_expiry_cases [of s] dropped requeue assms(1)
    by (auto simp: outcome_def)
qed

lemma finish_expiry_absent:
  assumes "absent i s" "id_of (timer_expiring s) \<noteq> i"
  shows "absent i (outcome (finish_expiry s))"
  using assms finish_expiry_cases [of s]
  by (auto simp: outcome_def absent_def timer_ids_def bubble_append_set)

lemma finish_expiry_trace: "trace (outcome (finish_expiry s)) = trace s"
  using finish_expiry_cases [of s] by (auto simp: outcome_def)

lemma finish_expiry_holder: "timer_expiring (outcome (finish_expiry s)) = timer_expiring s"
  using finish_expiry_cases [of s] by (auto simp: outcome_def)

subsection \<open>The expiry loop\<close>

lemma timers_ok_upd [simp]:
  "timers_ok (s\<lparr>poll_list := ps\<rparr>) = timers_ok s"
  "timers_ok (s\<lparr>timer_expiring := h\<rparr>) = timers_ok s"
  "timers_ok (s\<lparr>trace := tr\<rparr>) = timers_ok s"
  by (simp_all add: timers_ok_def timer_ids_def)

lemma absent_upd [simp]:
  "absent i (s\<lparr>poll_list := ps\<rparr>) = absent i s"
  "absent i (s\<lparr>timer_expiring := h\<rparr>) = absent i s"
  "absent i (s\<lparr>trace := tr\<rparr>) = absent i s"
  by (simp_all add: absent_def timer_ids_def)

lemma fires_upd [simp]:
  "fires i (s\<lparr>poll_list := ps\<rparr>) = fires i s"
  "fires i (s\<lparr>timer_expiring := h\<rparr>) = fires i s"
  "fires i (s\<lparr>eventTimers := m\<rparr>) = fires i s"
  "fires i (s\<lparr>timer_list := ts\<rparr>) = fires i s"
  by (simp_all add: fires_def)

lemma timer_calls_upd [simp]:
  "timer_calls (s\<lparr>poll_list := ps\<rparr>) = timer_calls s"
  "timer_calls (s\<lparr>timer_expiring := h\<rparr>) = timer_calls s"
  "timer_calls (s\<lparr>eventTimers := m\<rparr>) = timer_calls s"
  "timer_calls (s\<lparr>timer_list := ts\<rparr>) = timer_calls s"
  by (simp_all add: timer_calls_def)

lemma fires_run_ops [simp]: "fires i (run_ops xs s) = fires i s"
  by (simp add: fires_def)

lemma timer_calls_run_ops [simp]: "timer_calls (run_ops xs s) = timer_calls s"
  by (simp add: timer_calls_def)

lemma fires_begin [simp]: "fires i (begin_expiry now s) = fires i s"
  by (simp add: fires_def begin_expiry_fields)

lemma timer_calls_begin [simp]: "timer_calls (begin_expiry now s) = timer_calls s"
  by (simp add: timer_calls_def begin_expiry_fields)

lemma fires_finish [simp]: "fires i (outcome (finish_expiry s)) = fires i s"
  by (simp add: fires_def finish_expiry_trace)

lemma timer_calls_finish [simp]: "timer_calls (outcome (finish_expiry s)) = timer_calls s"
  by (simp add: timer_calls_def finish_expiry_trace)

text \<open>One pass of the body, whichever way it ends: the state it leaves.\<close>

lemma expire_one_outcome:
  "\<exists>bs1 s2. call_timer bs (begin_expiry now s) = (bs1, s2) \<and>
     (case expire_one now bs s of
        Inl (e, s') \<Rightarrow> finish_expiry s2 = Inl (e, s')
      | Inr (bs', s3) \<Rightarrow> bs' = bs1 \<and> finish_expiry s2 = Inr s3)"
  by (cases "call_timer bs (begin_expiry now s)")
     (auto simp: expire_one_def split: sum.splits)

lemma expire_one_Inr:
  assumes "expire_one now bs s = Inr (bs1, s3)"
  obtains s2 where "call_timer bs (begin_expiry now s) = (bs1, s2)" "outcome (finish_expiry s2) = s3"
    "finish_expiry s2 = Inr s3"
  using expire_one_outcome [of bs now s] assms by (auto simp: outcome_def)

lemma expire_one_Inl:
  assumes "expire_one now bs s = Inl (e, s')"
  obtains bs1 s2 where "call_timer bs (begin_expiry now s) = (bs1, s2)"
    "outcome (finish_expiry s2) = s'" "finish_expiry s2 = Inl (e, s')"
  using expire_one_outcome [of bs now s] assms by (auto simp: outcome_def)

lemma expire_one_ok:
  assumes "timers_ok s" "timer_list s \<noteq> []"
  shows "expire_one now bs s = Inr (bs1, s3) \<Longrightarrow> timers_ok s3"
    and "expire_one now bs s = Inl (e, s') \<Longrightarrow> timers_ok s'"
proof -
  note b = begin_expiry_ok [OF assms, of now]
  { assume "expire_one now bs s = Inr (bs1, s3)"
    then obtain s2 where c: "call_timer bs (begin_expiry now s) = (bs1, s2)"
      and f: "outcome (finish_expiry s2) = s3" by (rule expire_one_Inr)
    from call_timer_ok [OF c] b have "timers_ok s2 \<and> holder_ok s2" by simp
    then show "timers_ok s3" using finish_expiry_ok [of s2] f by simp }
  { assume "expire_one now bs s = Inl (e, s')"
    then obtain bs1 s2 where c: "call_timer bs (begin_expiry now s) = (bs1, s2)"
      and f: "outcome (finish_expiry s2) = s'" by (rule expire_one_Inl)
    from call_timer_ok [OF c] b have "timers_ok s2 \<and> holder_ok s2" by simp
    then show "timers_ok s'" using finish_expiry_ok [of s2] f by simp }
qed

lemma expire_one_absent:
  assumes "absent i s" "timer_list s \<noteq> []"
  shows "expire_one now bs s = Inr (bs1, s3) \<Longrightarrow> absent i s3 \<and> fires i s3 = fires i s"
    and "expire_one now bs s = Inl (e, s') \<Longrightarrow>
           absent i s' \<and> fires i s' = fires i s \<and> id_of (timer_expiring s') \<noteq> i"
proof -
  note b = begin_expiry_absent [OF assms, of now]
  { assume "expire_one now bs s = Inr (bs1, s3)"
    then obtain s2 where c: "call_timer bs (begin_expiry now s) = (bs1, s2)"
      and f: "outcome (finish_expiry s2) = s3" by (rule expire_one_Inr)
    have "absent i s2" using call_timer_absent [OF c] b by simp
    moreover have h: "id_of (timer_expiring s2) \<noteq> i"
      using call_timer_holder_id [OF c] b by simp
    moreover have "fires i s2 = fires i s"
      using call_timer_fires_other [OF c, of i] b by simp
    ultimately show "absent i s3 \<and> fires i s3 = fires i s"
      using finish_expiry_absent [of i s2] fires_finish [of i s2] f by simp }
  { assume "expire_one now bs s = Inl (e, s')"
    then obtain bs1 s2 where c: "call_timer bs (begin_expiry now s) = (bs1, s2)"
      and f: "outcome (finish_expiry s2) = s'" by (rule expire_one_Inl)
    have "absent i s2" using call_timer_absent [OF c] b by simp
    moreover have h: "id_of (timer_expiring s2) \<noteq> i"
      using call_timer_holder_id [OF c] b by simp
    moreover have "fires i s2 = fires i s"
      using call_timer_fires_other [OF c, of i] b by simp
    ultimately show "absent i s' \<and> fires i s' = fires i s \<and> id_of (timer_expiring s') \<noteq> i"
      using finish_expiry_absent [of i s2] fires_finish [of i s2] finish_expiry_holder [of s2] f
      by simp }
qed

lemma expire_one_calls:
  shows "expire_one now bs s = Inr (bs1, s3) \<Longrightarrow> timer_calls s3 \<le> Suc (timer_calls s)"
    and "expire_one now bs s = Inl (e, s') \<Longrightarrow> timer_calls s' \<le> Suc (timer_calls s)"
proof -
  { assume "expire_one now bs s = Inr (bs1, s3)"
    then obtain s2 where c: "call_timer bs (begin_expiry now s) = (bs1, s2)"
      and f: "outcome (finish_expiry s2) = s3" by (rule expire_one_Inr)
    show "timer_calls s3 \<le> Suc (timer_calls s)"
      using call_timer_calls [OF c] timer_calls_finish [of s2] f by simp }
  { assume "expire_one now bs s = Inl (e, s')"
    then obtain bs1 s2 where c: "call_timer bs (begin_expiry now s) = (bs1, s2)"
      and f: "outcome (finish_expiry s2) = s'" by (rule expire_one_Inl)
    show "timer_calls s' \<le> Suc (timer_calls s)"
      using call_timer_calls [OF c] timer_calls_finish [of s2] f by simp }
qed

lemma outcome_simps [simp]:
  "outcome (Inl (e, s)) = s" "outcome (Inr s) = s"
  by (simp_all add: outcome_def)

lemma expire_loop_ok:
  "timers_ok s \<Longrightarrow> timers_ok (outcome (expire_loop k now bs s))"
proof (induction k arbitrary: bs s)
  case 0
  then show ?case by simp
next
  case (Suc k)
  show ?case
  proof (cases "exit_requested s \<or> timer_list s = [] \<or> Num now < target (last (timer_list s))")
    case True
    then show ?thesis using Suc.prems by auto
  next
    case False
    then have ne: "timer_list s \<noteq> []" by simp
    show ?thesis
    proof (cases "expire_one now bs s")
      case (Inl a)
      obtain e s' where a: "a = (e, s')" by (cases a)
      from expire_one_ok(2) [OF Suc.prems ne] Inl a have "timers_ok s'" by simp
      then show ?thesis using False Inl a by simp
    next
      case (Inr b)
      obtain bs1 s3 where b: "b = (bs1, s3)" by (cases b)
      from expire_one_ok(1) [OF Suc.prems ne] Inr b have "timers_ok s3" by simp
      from Suc.IH [OF this] show ?thesis using False Inr b by simp
    qed
  qed
qed

lemma expire_loop_absent:
  "absent i s \<Longrightarrow>
   absent i (outcome (expire_loop k now bs s)) \<and>
   fires i (outcome (expire_loop k now bs s)) = fires i s \<and>
   (\<forall>e s'. expire_loop k now bs s = Inl (e, s') \<longrightarrow> id_of (timer_expiring s') \<noteq> i)"
proof (induction k arbitrary: bs s)
  case 0
  then show ?case by simp
next
  case (Suc k)
  show ?case
  proof (cases "exit_requested s \<or> timer_list s = [] \<or> Num now < target (last (timer_list s))")
    case True
    then show ?thesis using Suc.prems by auto
  next
    case False
    then have ne: "timer_list s \<noteq> []" by simp
    show ?thesis
    proof (cases "expire_one now bs s")
      case (Inl a)
      obtain e s' where a: "a = (e, s')" by (cases a)
      from expire_one_absent(2) [OF Suc.prems ne] Inl a
      have "absent i s' \<and> fires i s' = fires i s \<and> id_of (timer_expiring s') \<noteq> i" by simp
      then show ?thesis using False Inl a by simp
    next
      case (Inr b)
      obtain bs1 s3 where b: "b = (bs1, s3)" by (cases b)
      from expire_one_absent(1) [OF Suc.prems ne] Inr b
      have s3: "absent i s3" "fires i s3 = fires i s" by simp_all
      from Suc.IH [OF s3(1), of bs1] show ?thesis using False Inr b s3(2) by simp
    qed
  qed
qed

lemma expire_loop_calls:
  "timer_calls (outcome (expire_loop k now bs s)) \<le> timer_calls s + k"
proof (induction k arbitrary: bs s)
  case 0
  then show ?case by simp
next
  case (Suc k)
  show ?case
  proof (cases "exit_requested s \<or> timer_list s = [] \<or> Num now < target (last (timer_list s))")
    case True
    then show ?thesis by auto
  next
    case False
    show ?thesis
    proof (cases "expire_one now bs s")
      case (Inl a)
      obtain e s' where a: "a = (e, s')" by (cases a)
      from expire_one_calls(2) Inl a have "timer_calls s' \<le> Suc (timer_calls s)" by simp
      then show ?thesis using False Inl a by simp
    next
      case (Inr b)
      obtain bs1 s3 where b: "b = (bs1, s3)" by (cases b)
      from expire_one_calls(1) Inr b have "timer_calls s3 \<le> Suc (timer_calls s)" by simp
      with Suc.IH [of bs1 s3] show ?thesis using False Inr b by simp
    qed
  qed
qed

lemma expire_timers_outcome:
  "outcome (expire_timers now bs s) =
     (case expire_loop MAX_EXPIRYS now bs s of
        Inl (e, s') \<Rightarrow> s'
      | Inr s1 \<Rightarrow> s1\<lparr>timer_expiring := zero_timer\<rparr>)"
  by (simp add: expire_timers_def split: sum.splits)

lemma expire_timers_ok:
  "timers_ok s \<Longrightarrow> timers_ok (outcome (expire_timers now bs s))"
  using expire_loop_ok [of s MAX_EXPIRYS now bs]
  by (cases "expire_loop MAX_EXPIRYS now bs s") (auto simp: expire_timers_def)


lemma expire_timers_holder:
  "absent i s \<Longrightarrow> 0 < i \<Longrightarrow> id_of (timer_expiring (outcome (expire_timers now bs s))) \<noteq> i"
  using expire_loop_absent [of i s MAX_EXPIRYS now bs]
  by (cases "expire_loop MAX_EXPIRYS now bs s") (auto simp: expire_timers_def zero_timer_def)

lemma expire_timers_calls:
  "timer_calls (outcome (expire_timers now bs s)) \<le> timer_calls s + MAX_EXPIRYS"
  using expire_loop_calls [of MAX_EXPIRYS now bs s]
  by (cases "expire_loop MAX_EXPIRYS now bs s") (auto simp: expire_timers_def)

subsection \<open>Dispatch, the loop and histories\<close>




lemma timer_property_run_ops:
  "timer_property P \<Longrightarrow> P s \<Longrightarrow> P (run_ops xs s)"
  by (induction xs arbitrary: s) (simp_all add: timer_property_def)

lemma call_fd_handler_keeps:
  assumes "timer_property P" "P s"
  shows "P (outcome (map_sum id snd (call_fd_handler t i bs s)))"
proof -
  obtain b bs1 where nb: "next_behaviour bs = (b, bs1)" by (cases "next_behaviour bs")
  have "P (emit (Call_fd (fd (poll_slot s i)) (sint (revents (poll_slot s i)))) s)"
    using assms by (simp add: timer_property_def)
  then have 1: "P (run_ops (calls b) (emit (Call_fd (fd (poll_slot s i)) (sint (revents (poll_slot s i)))) s))"
    using assms(1) by (rule timer_property_run_ops [rotated])
  then have 2: "P (emit (Console_fd j f) (run_ops (calls b) (emit (Call_fd (fd (poll_slot s i)) (sint (revents (poll_slot s i)))) s)))" for j f
    using assms(1) by (simp add: timer_property_def)
  show ?thesis
    using 1 2 by (simp add: call_fd_handler_def nb Let_def split: option.splits)
qed

lemma clear_revents_keeps:
  "timer_property P \<Longrightarrow> P s \<Longrightarrow> P (clear_revents i s)"
  by (simp add: clear_revents_def timer_property_def)

lemma dispatch_loop_keeps:
  "timer_property P \<Longrightarrow> P s \<Longrightarrow> P (outcome (dispatch_loop t i k bs s))"
proof (induction k arbitrary: i bs s)
  case 0
  then show ?case by simp
next
  case (Suc k)
  show ?case
  proof (cases "fd (poll_slot s i) \<noteq> 0 \<and> revents (poll_slot s i) \<noteq> 0")
    case False
    then show ?thesis using Suc.IH [OF Suc.prems, of "Suc i" bs] by auto
  next
    case True
    show ?thesis
    proof (cases "call_fd_handler t i bs s")
      case (Inl a)
      obtain e s' where a: "a = (e, s')" by (cases a)
      from call_fd_handler_keeps [OF Suc.prems, of t i bs] Inl a have "P s'" by simp
      then show ?thesis using True Inl a by simp
    next
      case (Inr b)
      obtain bs1 s1 where b: "b = (bs1, s1)" by (cases b)
      from call_fd_handler_keeps [OF Suc.prems, of t i bs] Inr b have "P s1" by simp
      then have "P (clear_revents i s1)" using Suc.prems(1) by (simp add: clear_revents_keeps)
      from Suc.IH [OF Suc.prems(1) this] show ?thesis using True Inr b by simp
    qed
  qed
qed

lemma poll_keeps: "timer_property P \<Longrightarrow> P s \<Longrightarrow> P (poll revs timeout s)"
  by (simp add: poll_def timer_property_def)

lemma compact_keeps: "timer_property P \<Longrightarrow> P s \<Longrightarrow> P (compact_poll_list s)"
  by (simp add: compact_poll_list_def timer_property_def)

lemma poll_timeout_Inl:
  "poll_timeout t now s = Inl (e, s') \<Longrightarrow> e = Undefined_double_to_int \<and> s' = s"
  by (auto simp: poll_timeout_def Let_def split: option.splits double.splits if_splits)

lemma loop_iteration_keeps:
  assumes "timer_property P" "P (outcome (expire_timers (expire_now env) (timer_behaviours env) s))"
  shows "P (outcome (map_sum id snd (loop_iteration env s)))"
proof (cases "expire_timers (expire_now env) (timer_behaviours env) s")
  case (Inl a)
  then show ?thesis using assms(2) by (cases a) (simp add: loop_iteration_def)
next
  case (Inr s1)
  then have s1: "P s1" using assms(2) by simp
  then have s2: "P (compact_poll_list s1)" using assms(1) by (simp add: compact_keeps)
  show ?thesis
  proof (cases "exit_requested s1")
    case True
    then show ?thesis using Inr s1 by (simp add: loop_iteration_def)
  next
    case False
    show ?thesis
    proof (cases "poll_timeout (find_nearest_timer (compact_poll_list s1)) (poll_now env)
                    (compact_poll_list s1)")
      case (Inl a)
      obtain e s' where a: "a = (e, s')" by (cases a)
      have "s' = compact_poll_list s1"
        using Inl a poll_timeout_Inl by blast
      then show ?thesis using Inr False Inl a s2 by (simp add: loop_iteration_def Let_def)
    next
      case tm: (Inr w)
      show ?thesis
      proof (cases w)
        case None
        then show ?thesis using Inr False tm s2 by (simp add: loop_iteration_def Let_def)
      next
        case (Some timeout)
        have s3: "P (poll (poll_revents env) timeout (compact_poll_list s1))"
          using assms(1) s2 by (rule poll_keeps)
        define s3 where "s3 = poll (poll_revents env) timeout (compact_poll_list s1)"
        define d where "d = dispatch_loop (find_nearest_timer (compact_poll_list s1)) 0
                              (if poll_rc env = 0 then 0 else length (poll_list s3))
                              (fd_behaviours env) s3"
        have "P (outcome d)"
          unfolding d_def using assms(1) s3 [folded s3_def] by (rule dispatch_loop_keeps)
        moreover have "loop_iteration env s =
                         (case d of Inl e \<Rightarrow> Inl e | Inr s4 \<Rightarrow> Inr (RUNNING, s4))"
          using Inr False Some tm by (simp add: loop_iteration_def Let_def d_def s3_def)
        ultimately show ?thesis
          by (cases d) auto
      qed
    qed
  qed
qed

lemma timer_property_timers_ok: "timer_property timers_ok"
  by (simp add: timer_property_def run_op_timers_ok)


lemma after_action_ok: "timers_ok s \<Longrightarrow> timers_ok (after_action a s)"
proof (cases a)
  case (Api x)
  assume "timers_ok s"
  then show ?thesis using Api by (simp add: run_op_timers_ok)
next
  case (Expire now bs)
  assume "timers_ok s"
  then show ?thesis using Expire by (simp add: expire_timers_ok)
next
  case (Iterate env)
  assume "timers_ok s"
  then have "timers_ok (outcome (expire_timers (expire_now env) (timer_behaviours env) s))"
    by (rule expire_timers_ok)
  with timer_property_timers_ok show ?thesis
    using Iterate by (simp add: loop_iteration_keeps)
qed

lemma run_actions_ok: "timers_ok s \<Longrightarrow> timers_ok (run_actions as s)"
  by (induction as arbitrary: s) (simp_all add: after_action_ok)



lemma timers_ok_register: "timers_ok eventloop_register"
  by (simp add: timers_ok_def eventloop_register_def timer_ids_def later_first_def)

lemma later_first_sorted:
  "later_first ts \<longleftrightarrow> sorted_wrt (\<le>) (rev (filter (\<lambda>d. d \<noteq> NaN) (map target ts)))"
proof -
  have "filter (\<lambda>d. d \<noteq> NaN) (map target ts) = map target (filter (\<lambda>t. target t \<noteq> NaN) ts)"
    by (simp add: filter_map comp_def)
  then show ?thesis
    by (simp add: later_first_def sorted_wrt_rev sorted_wrt_map)
qed

subsection \<open>What an expiry adds to the trace\<close>

lemma timer_events_since_refl [simp]: "timer_events_since s s"
  by (simp add: timer_events_since_def)

lemma timer_events_since_trans:
  "timer_events_since s s' \<Longrightarrow> timer_events_since s' s'' \<Longrightarrow> timer_events_since s s''"
  by (auto simp: timer_events_since_def)

lemma timer_events_since_trace:
  "trace s' = trace s \<Longrightarrow> timer_events_since s s'"
  by (simp add: timer_events_since_def)

lemma timer_events_since_counts:
  assumes "timer_events_since s s'"
  shows "waits s' = waits s" and "fd_calls s' = fd_calls s"
proof -
  from assms obtain evs where evs: "trace s' = trace s @ evs" "list_all is_timer_event evs"
    by (auto simp: timer_events_since_def)
  have "filter is_poll_wait evs = []" "filter is_fd_call evs = []"
    using evs(2)
    by (induction evs; simp; case_tac a; simp)+
  then show "waits s' = waits s" "fd_calls s' = fd_calls s"
    by (simp_all add: waits_def fd_calls_def evs(1))
qed

lemma call_timer_events:
  "call_timer bs s = (bs1, s2) \<Longrightarrow> timer_events_since s s2"
  by (drule call_timer_cases)
     (auto simp: Let_def timer_events_since_def split: if_splits)

lemma expire_one_events:
  shows "expire_one now bs s = Inr (bs1, s3) \<Longrightarrow> timer_events_since s s3"
    and "expire_one now bs s = Inl (e, s') \<Longrightarrow> timer_events_since s s'"
proof -
  have b: "timer_events_since s (begin_expiry now s)"
    by (simp add: timer_events_since_trace begin_expiry_fields)
  { assume "expire_one now bs s = Inr (bs1, s3)"
    then obtain s2 where c: "call_timer bs (begin_expiry now s) = (bs1, s2)"
      and f: "outcome (finish_expiry s2) = s3" by (rule expire_one_Inr)
    have "timer_events_since s2 s3"
      using finish_expiry_trace [of s2] f by (simp add: timer_events_since_trace)
    with b call_timer_events [OF c] show "timer_events_since s s3"
      by (blast intro: timer_events_since_trans) }
  { assume "expire_one now bs s = Inl (e, s')"
    then obtain bs1 s2 where c: "call_timer bs (begin_expiry now s) = (bs1, s2)"
      and f: "outcome (finish_expiry s2) = s'" by (rule expire_one_Inl)
    have "timer_events_since s2 s'"
      using finish_expiry_trace [of s2] f by (simp add: timer_events_since_trace)
    with b call_timer_events [OF c] show "timer_events_since s s'"
      by (blast intro: timer_events_since_trans) }
qed

lemma expire_loop_events:
  "timer_events_since s (outcome (expire_loop k now bs s))"
proof (induction k arbitrary: bs s)
  case 0
  then show ?case by simp
next
  case (Suc k)
  show ?case
  proof (cases "exit_requested s \<or> timer_list s = [] \<or> Num now < target (last (timer_list s))")
    case True
    then show ?thesis by auto
  next
    case False
    show ?thesis
    proof (cases "expire_one now bs s")
      case (Inl a)
      obtain e s' where a: "a = (e, s')" by (cases a)
      from expire_one_events(2) Inl a have "timer_events_since s s'" by simp
      then show ?thesis using False Inl a by simp
    next
      case (Inr b)
      obtain bs1 s3 where b: "b = (bs1, s3)" by (cases b)
      from expire_one_events(1) Inr b have "timer_events_since s s3" by simp
      with Suc.IH [of s3 bs1] show ?thesis using False Inr b
        by (auto intro: timer_events_since_trans)
    qed
  qed
qed

lemma expire_timers_events:
  "timer_events_since s (outcome (expire_timers now bs s))"
  using expire_loop_events [of s MAX_EXPIRYS now bs]
  by (cases "expire_loop MAX_EXPIRYS now bs s")
     (auto simp: expire_timers_def timer_events_since_def)

subsection \<open>Reading off the loop\<close>

lemma call_timer_holder:
  "call_timer bs s = (bs1, s2) \<Longrightarrow>
   timer_expiring s2 = timer_expiring s \<or>
   timer_expiring s2 = (timer_expiring s)\<lparr>removed := True\<rparr>"
  using run_ops_holder
          [of "calls (fst (next_behaviour bs))" "emit (Call_timer (id_of (timer_expiring s))) s"]
  by (drule_tac call_timer_cases) (auto simp: Let_def split: if_splits)


lemma expire_loop_exit: "exit_requested s \<Longrightarrow> expire_loop k now bs s = Inr s"
  by (cases k) simp_all



lemma dispatch_loop_null:
  assumes "throws (fst (next_behaviour bs))"
    and "i \<le> j" "j < i + k" "fd (poll_slot s j) \<noteq> 0" "revents (poll_slot s j) \<noteq> 0"
  shows "\<exists>s'. dispatch_loop None i k bs s = Inl (Null_dereference, s')"
  using assms(2,3)
proof (induction k arbitrary: i)
  case 0
  then show ?case by simp
next
  case (Suc k)
  show ?case
  proof (cases "fd (poll_slot s i) \<noteq> 0 \<and> revents (poll_slot s i) \<noteq> 0")
    case True
    have "\<exists>s'. call_fd_handler None i bs s = Inl (Null_dereference, s')"
      using assms(1) by (cases "next_behaviour bs") (simp add: call_fd_handler_def Let_def)
    then show ?thesis using True by auto
  next
    case False
    then have "i \<noteq> j" using assms(4,5) by auto
    then have "Suc i \<le> j" "j < Suc i + k" using Suc.prems by simp_all
    from Suc.IH [OF this] show ?thesis using False by auto
  qed
qed

lemma dispatch_loop_Some:
  "\<exists>s'. dispatch_loop (Some j) i k bs s = Inr s'"
proof (induction k arbitrary: i bs s)
  case 0
  then show ?case by simp
next
  case (Suc k)
  have h: "\<exists>bs1 s1. call_fd_handler (Some j) i bs s = Inr (bs1, s1)"
    by (cases "next_behaviour bs") (simp add: call_fd_handler_def Let_def)
  show ?case
  proof (cases "fd (poll_slot s i) \<noteq> 0 \<and> revents (poll_slot s i) \<noteq> 0")
    case True
    from h obtain bs1 s1 where "call_fd_handler (Some j) i bs s = Inr (bs1, s1)" by blast
    then show ?thesis using True Suc.IH [of "Suc i" bs1 "clear_revents i s1"] by simp
  next
    case False
    then show ?thesis using Suc.IH [of "Suc i" bs s] by auto
  qed
qed

lemma write_revents_fd: "map fd (write_revents rs ps) = map fd ps"
  by (induction rs ps rule: write_revents.induct) simp_all

lemma compact_loop_fd: "p \<in> set (compact_loop ps) \<Longrightarrow> fd p \<noteq> 0"
  by (induction ps) (auto split: if_splits)

lemma poll_fds:
  assumes "p \<in> set (poll_list (poll revs timeout (compact_poll_list s)))"
  shows "fd p \<noteq> 0"
proof -
  have "fd p \<in> set (map fd (write_revents revs (compact_loop (poll_list s))))"
    using assms by (simp add: poll_def compact_poll_list_def)
  then have "fd p \<in> fd ` set (compact_loop (poll_list s))"
    by (simp add: write_revents_fd)
  then show ?thesis using compact_loop_fd by auto
qed

subsection \<open>Timers that have not fired\<close>

lemma unfired_upd [simp]:
  "unfired (s\<lparr>poll_list := ps\<rparr>) = unfired s"
  "unfired (s\<lparr>timer_expiring := h\<rparr>) = unfired s"
  "unfired (s\<lparr>eventTimers := m\<rparr>) = unfired s"
  "unfired (s\<lparr>exit_requested := x\<rparr>) = unfired s"
  by (simp_all add: unfired_def fires_def)

lemma run_op_unfired: "unfired s \<Longrightarrow> unfired (run_op x s)"
proof (cases x)
  case (CreateTimer now f d one)
  assume "unfired s"
  then show ?thesis using CreateTimer
    by (auto simp: run_op_create unfired_def fires_def bubble_append_set)
next
  case (DeleteTimer i)
  assume u: "unfired s"
  show ?thesis
  proof (cases "delete_scan i (timer_list s)")
    case None
    then show ?thesis using u DeleteTimer by (simp add: run_op_delete)
  next
    case (Some us)
    from delete_scan_Some [OF Some] have "set us \<subseteq> set (timer_list s)" by simp
    then have "unfired (s\<lparr>timer_list := us\<rparr>)"
      using u by (auto simp: unfired_def fires_def)
    then show ?thesis using u DeleteTimer Some by (simp add: run_op_delete)
  qed
next
  case (ListenFd f ev)
  assume "unfired s"
  then show ?thesis using ListenFd
    by (simp add: unfired_def fires_def run_op_listen_timers)
next
  case RequestExit
  assume "unfired s"
  then show ?thesis using RequestExit by (simp add: run_op_request)
qed

lemma run_ops_unfired: "unfired s \<Longrightarrow> unfired (run_ops xs s)"
  by (induction xs arbitrary: s) (simp_all add: run_op_unfired)

lemma emit_unfired: "\<not> is_timer_call e \<Longrightarrow> unfired (emit e s) = unfired s"
  by (cases e) (simp_all add: unfired_def fires_def)

lemma timer_property_unfired: "timer_property unfired"
  by (simp add: timer_property_def run_op_unfired emit_unfired)

lemma begin_expiry_unfired:
  assumes "unfired s" "timer_list s \<noteq> []"
  shows "unfired (begin_expiry now s)"
proof -
  have "set (butlast (timer_list s)) \<subseteq> set (timer_list s)"
    by (auto dest: in_set_butlastD)
  then show ?thesis
    using assms(1) by (auto simp: unfired_def fires_def begin_expiry_fields)
qed

lemma begin_expiry_marked:
  "oneshot (timer_expiring (begin_expiry now s)) \<longrightarrow> removed (timer_expiring (begin_expiry now s))"
  by (simp add: begin_expiry_holder)

lemma call_timer_marked:
  assumes "call_timer bs s = (bs1, s2)"
    and "oneshot (timer_expiring s) \<longrightarrow> removed (timer_expiring s)"
  shows "oneshot (timer_expiring s2) \<longrightarrow> removed (timer_expiring s2)"
  using call_timer_holder [OF assms(1)] assms(2) by auto

lemma call_timer_unfired:
  assumes c: "call_timer bs s = (bs1, s2)" and u: "unfired s" and h: "holder_ok s"
  shows "unfired s2"
proof -
  let ?i = "id_of (timer_expiring s)"
  have "unfired (emit (Call_timer ?i) s)"
    using u h by (auto simp: unfired_def holder_ok_def fires_def timer_ids_def)
  then have 1: "unfired (run_ops xs (emit (Call_timer ?i) s))" for xs
    by (rule run_ops_unfired)
  then have 2: "unfired (emit (Console_timer j) (run_ops xs (emit (Call_timer ?i) s)))" for xs j
    by (simp add: emit_unfired)
  have 3: "unfired (emit (Console_timer j) s)" for j
    using u by (simp add: emit_unfired)
  from call_timer_cases [OF c] show ?thesis
    using 1 2 3 by (auto simp: Let_def split: if_splits)
qed

lemma finish_expiry_unfired:
  assumes "unfired s" "oneshot (timer_expiring s) \<longrightarrow> removed (timer_expiring s)"
  shows "unfired (outcome (finish_expiry s))"
  using finish_expiry_cases [of s] assms
  by (auto simp: unfired_def fires_def bubble_append_set)

lemma expire_one_unfired:
  assumes "timers_ok s" "unfired s" "timer_list s \<noteq> []"
  shows "expire_one now bs s = Inr (bs1, s3) \<Longrightarrow> unfired s3"
    and "expire_one now bs s = Inl (e, s') \<Longrightarrow> unfired s'"
proof -
  note b = begin_expiry_ok [OF assms(1,3), of now] begin_expiry_unfired [OF assms(2,3), of now]
  { assume "expire_one now bs s = Inr (bs1, s3)"
    then obtain s2 where c: "call_timer bs (begin_expiry now s) = (bs1, s2)"
      and f: "outcome (finish_expiry s2) = s3" by (rule expire_one_Inr)
    have "unfired s2" using call_timer_unfired [OF c] b by simp
    then show "unfired s3"
      using finish_expiry_unfired [of s2] call_timer_marked [OF c begin_expiry_marked] f by simp }
  { assume "expire_one now bs s = Inl (e, s')"
    then obtain bs1 s2 where c: "call_timer bs (begin_expiry now s) = (bs1, s2)"
      and f: "outcome (finish_expiry s2) = s'" by (rule expire_one_Inl)
    have "unfired s2" using call_timer_unfired [OF c] b by simp
    then show "unfired s'"
      using finish_expiry_unfired [of s2] call_timer_marked [OF c begin_expiry_marked] f by simp }
qed

lemma expire_loop_unfired:
  "timers_ok s \<Longrightarrow> unfired s \<Longrightarrow> unfired (outcome (expire_loop k now bs s))"
proof (induction k arbitrary: bs s)
  case 0
  then show ?case by simp
next
  case (Suc k)
  show ?case
  proof (cases "exit_requested s \<or> timer_list s = [] \<or> Num now < target (last (timer_list s))")
    case True
    then show ?thesis using Suc.prems by auto
  next
    case False
    then have ne: "timer_list s \<noteq> []" by simp
    show ?thesis
    proof (cases "expire_one now bs s")
      case (Inl a)
      obtain e s' where a: "a = (e, s')" by (cases a)
      from expire_one_unfired(2) [OF Suc.prems ne] Inl a have "unfired s'" by simp
      then show ?thesis using False Inl a by simp
    next
      case (Inr b)
      obtain bs1 s3 where b: "b = (bs1, s3)" by (cases b)
      from expire_one_unfired(1) [OF Suc.prems ne] Inr b have u: "unfired s3" by simp
      from expire_one_ok(1) [OF Suc.prems(1) ne] Inr b have "timers_ok s3" by simp
      from Suc.IH [OF this u] show ?thesis using False Inr b by simp
    qed
  qed
qed

lemma expire_timers_unfired:
  "timers_ok s \<Longrightarrow> unfired s \<Longrightarrow> unfired (outcome (expire_timers now bs s))"
  using expire_loop_unfired [of s MAX_EXPIRYS now bs]
  by (cases "expire_loop MAX_EXPIRYS now bs s") (auto simp: expire_timers_def)

lemma after_action_unfired:
  assumes "timers_ok s" "unfired s"
  shows "unfired (after_action a s)"
proof (cases a)
  case (Api x)
  then show ?thesis using assms by (simp add: run_op_unfired)
next
  case (Expire now bs)
  then show ?thesis using assms by (simp add: expire_timers_unfired)
next
  case (Iterate env)
  have "unfired (outcome (expire_timers (expire_now env) (timer_behaviours env) s))"
    using assms by (rule expire_timers_unfired)
  with timer_property_unfired show ?thesis
    using Iterate by (simp add: loop_iteration_keeps)
qed

lemma run_actions_unfired:
  "timers_ok s \<Longrightarrow> unfired s \<Longrightarrow> unfired (run_actions as s)"
  by (induction as arbitrary: s) (simp_all add: after_action_ok after_action_unfired)


subsection \<open>Small runs, evaluated\<close>

lemmas run_defs =
  expire_timers_def MAX_EXPIRYS_def expire_one_def begin_expiry_def call_timer_def
  finish_expiry_def emit_def returns_at_once_def bubble_last_timer_def MAX_TIMERS_def
  MIN_DELAY_def new_timer_def run_op_create run_op_delete run_op_request
  eventloop_register_def Let_def eval_nat_numeral

lemma two_timers:
  "timer_list (run_actions [Api (CreateTimer 0 7 (Num 10) True), Api (CreateTimer 0 8 (Num 50) True)]
                 eventloop_register) =
     [\<lparr>id_of = 2, target = Num 50, delay = Num 50, oneshot = True, removed = False\<rparr>,
      \<lparr>id_of = 1, target = Num 10, delay = Num 10, oneshot = True, removed = False\<rparr>]"
  by (simp add: run_op_create eventloop_register_def MAX_TIMERS_def new_timer_def MIN_DELAY_def)

lemma three_timers:
  "timer_list (run_actions [Api (CreateTimer 0 7 NaN True), Api (CreateTimer 0 8 (Num 50) True),
                            Api (CreateTimer 0 9 (Num 10) True)] eventloop_register) =
     [\<lparr>id_of = 2, target = Num 50, delay = Num 50, oneshot = True, removed = False\<rparr>,
      \<lparr>id_of = 3, target = Num 10, delay = Num 10, oneshot = True, removed = False\<rparr>,
      \<lparr>id_of = 1, target = NaN, delay = NaN, oneshot = True, removed = False\<rparr>]"
  by (simp add: run_op_create eventloop_register_def MAX_TIMERS_def new_timer_def MIN_DELAY_def)


lemma interval_state:
  "run_op (CreateTimer 0 7 (Num 10) False) eventloop_register =
     \<lparr>timer_list = [\<lparr>id_of = 1, target = Num 10, delay = Num 10, oneshot = False, removed = False\<rparr>],
      timer_expiring = zero_timer, timer_next_id = 2, poll_list = [],
      exit_requested = False, eventTimers = [1 \<mapsto> 7], trace = []\<rparr>"
  by (simp add: run_op_create eventloop_register_def MAX_TIMERS_def new_timer_def MIN_DELAY_def)

lemma watch_five:
  "run_op (ListenFd 5 1) eventloop_register =
     eventloop_register\<lparr>poll_list := [\<lparr>fd = 5, events = 1, revents = 0\<rparr>]\<rparr>"
  by (simp add: run_op.simps listen_fd_def eventloop_register_def MAX_FDS_def)

subsection \<open>The scans\<close>

lemma listen_scan_absent:
  "f \<notin> fd ` set ps \<Longrightarrow> listen_scan f ev ps = None"
  by (induction ps) auto

lemma delete_scan_absent:
  "i \<notin> id_of ` set ts \<Longrightarrow> delete_scan i ts = None"
  by (induction ts) auto

lemma delete_timer_unknown:
  "i \<notin> set (timer_ids s) \<Longrightarrow> id_of (timer_expiring s) \<noteq> i \<Longrightarrow> delete_timer i s = (False, s)"
  by (simp add: delete_timer_def timer_ids_def delete_scan_absent)

subsection \<open>The poll list between iterations\<close>

lemma tombstoned_refl: "list_all2 tombstoned ps ps"
  by (simp add: list_all2_refl tombstoned_def)


lemma poll_grows_refl [simp]: "poll_grows s s"
  unfolding poll_grows_def
  by (rule exI [of _ "poll_list s"], rule exI [of _ "[]"]) (simp add: tombstoned_refl)






































subsection \<open>Watching a descriptor with an empty mask\<close>

text \<open>
  Claim C9. For a descriptor value that no entry of the poll list carries,
  \<^verbatim>\<open>listen_fd(fd, 0)\<close> is not a no-op: it appends a new entry with interest mask 0, or
  throws the "out of fd slots" error when the list is full; in neither case does it
  return with the state unchanged.
\<close>

theorem listen_fd_zero_mask_appends:
  assumes "f \<notin> fd ` set (poll_list s)"
  shows "listen_fd f 0 s =
           (if length (poll_list s) \<ge> MAX_FDS then Inl (Error_out_of_fd_slots, s)
            else Inr (s\<lparr>poll_list := poll_list s @ [\<lparr>fd = f, events = 0, revents = 0\<rparr>]\<rparr>))
         \<and> listen_fd f 0 s \<noteq> Inr s"
proof -
  have scan: "listen_scan f 0 (poll_list s) = None"
    using assms by (rule listen_scan_absent)
  have eq: "listen_fd f 0 s =
           (if length (poll_list s) \<ge> MAX_FDS then Inl (Error_out_of_fd_slots, s)
            else Inr (s\<lparr>poll_list := poll_list s @ [\<lparr>fd = f, events = 0, revents = 0\<rparr>]\<rparr>))"
    by (simp add: listen_fd_def scan)
  have "s\<lparr>poll_list := poll_list s @ [\<lparr>fd = f, events = 0, revents = 0\<rparr>]\<rparr> \<noteq> s"
  proof
    assume "s\<lparr>poll_list := poll_list s @ [\<lparr>fd = f, events = 0, revents = 0\<rparr>]\<rparr> = s"
    then have "poll_list (s\<lparr>poll_list := poll_list s @ [\<lparr>fd = f, events = 0, revents = 0\<rparr>]\<rparr>)
                 = poll_list s" by simp
    then show False by simp
  qed
  with eq show ?thesis by auto
qed

theorem listen_fd_zero_mask_appends_witness:
  "7 \<notin> fd ` set (poll_list (outcome (listen_fd 5 1 eventloop_register))) \<and>
   listen_fd 7 0 (outcome (listen_fd 5 1 eventloop_register)) =
     Inr ((outcome (listen_fd 5 1 eventloop_register))
            \<lparr>poll_list := [\<lparr>fd = 5, events = 1, revents = 0\<rparr>,
                           \<lparr>fd = 7, events = 0, revents = 0\<rparr>]\<rparr>)"
proof -
  have s: "poll_list (outcome (listen_fd 5 1 eventloop_register)) =
             [\<lparr>fd = 5, events = 1, revents = 0\<rparr>]"
    by (simp add: listen_fd_def eventloop_register_def outcome_def MAX_FDS_def)
  have h: "7 \<notin> fd ` set (poll_list (outcome (listen_fd 5 1 eventloop_register)))"
    by (simp add: s)
  show ?thesis
    using h listen_fd_zero_mask_appends [OF h] by (simp add: s MAX_FDS_def)
qed

subsection \<open>Deleting a timer that does not exist\<close>

text \<open>
  Claim C4 says that \<^verbatim>\<open>deleteTimer\<close> of an id no timer ever had, id 0 included, returns
  false and changes nothing. For id 0 the code does otherwise: outside a timer callback
  the holder is the zero struct, whose id is 0, so the first test of \<^verbatim>\<open>delete_timer\<close>
  matches it. Right after registration \<^verbatim>\<open>deleteTimer(0)\<close> returns true and sets the
  \<^verbatim>\<open>removed\<close> flag of the holder.
\<close>

theorem delete_timer_zero_when_idle:
  "delete_timer 0 eventloop_register =
     (True, eventloop_register\<lparr>timer_expiring := zero_timer\<lparr>removed := True\<rparr>\<rparr>)"
  by (simp add: delete_timer_def eventloop_register_def zero_timer_def)

subsection \<open>The order of the timer list\<close>

text \<open>
  Claim C1 says that after every operation the pending timers are sorted ascending by
  target, the soonest first. In the array it is the other way round: two timers created
  with delays 10 and 50 at time 0 stand as 50, 10. And a timer created with a NaN delay
  has a NaN target, which the comparisons of \<^verbatim>\<open>bubble_last_timer\<close> do not order: created
  first, before delays 50 and 10, it ends in the last slot, and the array 50, 10, NaN is
  sorted in neither direction.
\<close>

theorem timer_list_not_ascending:
  "\<not> sorted_wrt (\<le>)
       (targets (run_actions [Api (CreateTimer 0 7 (Num 10) True),
                              Api (CreateTimer 0 8 (Num 50) True)] eventloop_register)) \<and>
   targets (run_actions [Api (CreateTimer 0 7 NaN True), Api (CreateTimer 0 8 (Num 50) True),
                         Api (CreateTimer 0 9 (Num 10) True)] eventloop_register) =
     [Num 50, Num 10, NaN] \<and>
   \<not> sorted_wrt (\<le>) [Num 50, Num 10, NaN] \<and>
   \<not> sorted_wrt (\<le>) (rev [Num 50, Num 10, NaN])"
  unfolding targets_def two_timers three_timers by auto

text \<open>
  Claim C1, as amended. After every sequence of script calls (\<^verbatim>\<open>createTimer\<close>,
  \<^verbatim>\<open>deleteTimer\<close>, and the two others), calls of \<^verbatim>\<open>expire_timers\<close> with the callbacks
  they run and the timers they queue back, and loop iterations, started from the
  registered state, the targets of the timer list that are not NaN descend along the
  array: read from the last used slot, where \<^verbatim>\<open>find_nearest_timer\<close> and
  \<^verbatim>\<open>expire_timers\<close> look, down to slot 0 they ascend, the timer that expires first
  being the last of them in the array. Nothing is said of where a timer with a NaN
  target stands.
\<close>

theorem timer_list_soonest_last:
  "sorted_wrt (\<le>)
     (rev (filter (\<lambda>d. d \<noteq> NaN) (targets (run_actions as eventloop_register))))"
  using run_actions_ok [OF timers_ok_register, of as]
  by (simp add: timers_ok_def later_first_sorted targets_def)

theorem timer_list_soonest_last_witness:
  "rev (filter (\<lambda>d. d \<noteq> NaN)
          (targets (run_actions [Api (CreateTimer 0 7 NaN True),
                                 Api (CreateTimer 0 8 (Num 50) True),
                                 Api (CreateTimer 0 9 (Num 10) True)] eventloop_register))) =
     [Num 10, Num 50] \<and>
   sorted_wrt (\<le>)
     (rev (filter (\<lambda>d. d \<noteq> NaN)
          (targets (run_actions [Api (CreateTimer 0 7 NaN True),
                                 Api (CreateTimer 0 8 (Num 50) True),
                                 Api (CreateTimer 0 9 (Num 10) True)] eventloop_register))))"
  using timer_list_soonest_last
          [of "[Api (CreateTimer 0 7 NaN True), Api (CreateTimer 0 8 (Num 50) True),
                Api (CreateTimer 0 9 (Num 10) True)]"]
  unfolding targets_def three_timers by simp

subsection \<open>One-shot timers\<close>

text \<open>
  The list invariant \<open>timers_ok\<close> and \<open>unfired\<close> hold in every state reached from the
  registered one (\<open>run_actions_ok\<close>, \<open>run_actions_unfired\<close>) and between the passes of
  the expiry loop (\<open>expire_loop_ok\<close>, \<open>expire_loop_unfired\<close>).
\<close>




subsection \<open>Cancelling a timer from its own callback\<close>



subsection \<open>The next target of an interval timer\<close>

text \<open>
  Claim C6. When \<^verbatim>\<open>expire_timers\<close>, called at time \<open>now\<close>, expires an interval timer, the
  target it gives the timer is \<open>now + delay\<close>, the time of the expiry round plus the
  delay, and not the old target plus the delay: that is the target of the holder while
  the callback runs, and of the entry queued back when the callback has not cancelled
  the timer.
\<close>

theorem interval_target_from_now:
  assumes "timer_list s \<noteq> []" "\<not> oneshot (last (timer_list s))"
    and "\<not> target (last (timer_list s)) > Num now" "\<not> exit_requested s"
    and "expire_one now bs s = Inr (bs1, s1)" "\<not> removed (timer_expiring s1)"
  shows "expire_loop (Suc k) now bs s = expire_loop k now bs1 s1 \<and>
         target (timer_expiring (begin_expiry now s)) = Num now + delay (last (timer_list s)) \<and>
         (last (timer_list s))\<lparr>target := Num now + delay (last (timer_list s))\<rparr> \<in> set (timer_list s1)"
proof -
  let ?t = "last (timer_list s)"
  from assms(5) obtain s2 where c: "call_timer bs (begin_expiry now s) = (bs1, s2)"
    and f: "finish_expiry s2 = Inr s1" by (rule expire_one_Inr)
  have h0: "timer_expiring (begin_expiry now s) = ?t\<lparr>target := Num now + delay ?t\<rparr>"
    using assms(2) by (simp add: begin_expiry_holder)
  have h1: "timer_expiring s1 = timer_expiring s2"
    using finish_expiry_holder [of s2] f by simp
  have h2: "timer_expiring s2 = ?t\<lparr>target := Num now + delay ?t\<rparr>"
    using call_timer_holder [OF c] assms(6) h0 h1 by auto
  have "timer_list s1 = bubble_loop (length (timer_list s2)) (timer_list s2 @ [timer_expiring s2])"
    using finish_expiry_cases [of s2] f assms(6) h1 by auto
  then have "timer_expiring s2 \<in> set (timer_list s1)"
    by (simp add: bubble_append_set)
  then show ?thesis
    using assms(1,3,4,5) h0 h2 by simp
qed

theorem interval_target_from_now_witness:
  "\<not> oneshot (last (timer_list (run_op (CreateTimer 0 7 (Num 10) False) eventloop_register))) \<and>
   target (last (timer_list (run_op (CreateTimer 0 7 (Num 10) False) eventloop_register))) = Num 10 \<and>
   delay (last (timer_list (run_op (CreateTimer 0 7 (Num 10) False) eventloop_register))) = Num 10 \<and>
   \<lparr>id_of = 1, target = Num 35, delay = Num 10, oneshot = False, removed = False\<rparr>
     \<in> set (timer_list (outcome (expire_timers 25 []
               (run_op (CreateTimer 0 7 (Num 10) False) eventloop_register))))"
proof -
  let ?s = "run_op (CreateTimer 0 7 (Num 10) False) eventloop_register"
  let ?s1 = "\<lparr>timer_list = [\<lparr>id_of = 1, target = Num 35, delay = Num 10, oneshot = False, removed = False\<rparr>],
      timer_expiring = \<lparr>id_of = 1, target = Num 35, delay = Num 10, oneshot = False, removed = False\<rparr>,
      timer_next_id = 2, poll_list = [],
      exit_requested = False, eventTimers = [1 \<mapsto> 7], trace = [Call_timer 1]\<rparr>"
  have ne: "timer_list ?s \<noteq> []" and rep: "\<not> oneshot (last (timer_list ?s))"
    and due: "\<not> target (last (timer_list ?s)) > Num 25" and run: "\<not> exit_requested ?s"
    and t: "target (last (timer_list ?s)) = Num 10" "delay (last (timer_list ?s)) = Num 10"
    and l: "last (timer_list ?s) = \<lparr>id_of = 1, target = Num 10, delay = Num 10, oneshot = False, removed = False\<rparr>"
    unfolding interval_state by simp_all
  have one: "expire_one 25 [] ?s = Inr ([], ?s1)"
    unfolding interval_state
    by (simp add: expire_one_def begin_expiry_def call_timer_def finish_expiry_def emit_def
          returns_at_once_def bubble_last_timer_def MAX_TIMERS_def Let_def)
  have kept: "\<not> removed (timer_expiring ?s1)" by simp
  have rest: "expire_loop 9 25 [] ?s1 = Inr ?s1"
    by (simp add: eval_nat_numeral)
  have "expire_loop (Suc 9) 25 [] ?s = expire_loop 9 25 [] ?s1 \<and>
        (last (timer_list ?s))\<lparr>target := Num 25 + delay (last (timer_list ?s))\<rparr> \<in> set (timer_list ?s1)"
    using interval_target_from_now [OF ne rep due run one kept, of 9] by simp
  then have "outcome (expire_timers 25 [] ?s) = ?s1\<lparr>timer_expiring := zero_timer\<rparr>"
    by (simp add: expire_timers_def MAX_EXPIRYS_def rest)
  then show ?thesis
    using rep t by simp
qed

subsection \<open>The bound on one expiry round\<close>

text \<open>
  Claim C7. One call of \<^verbatim>\<open>expire_timers\<close> invokes at most \<^verbatim>\<open>MAX_EXPIRYS\<close> = 10 timer
  callbacks, whatever timers the callbacks create; and once \<^verbatim>\<open>exit_requested\<close> is set,
  at the start of the call or by a callback during it, the loop ends without invoking
  another callback.
\<close>

theorem expire_timers_bounded:
  "timer_calls (outcome (expire_timers now bs s)) \<le> timer_calls s + 10 \<and>
   (exit_requested s \<longrightarrow> expire_loop k now bs s = Inr s \<and>
      outcome (expire_timers now bs s) = s\<lparr>timer_expiring := zero_timer\<rparr>) \<and>
   (expire_one now bs s = Inr (bs1, s1) \<and> exit_requested s1 \<longrightarrow>
      expire_loop k now bs1 s1 = Inr s1)"
  using expire_timers_calls [of now bs s]
  by (simp add: expire_loop_exit expire_timers_def MAX_EXPIRYS_def)

theorem expire_timers_bounded_witness:
  "timer_calls (outcome (expire_timers 100
       (replicate 12 \<lparr>calls = [CreateTimer 0 7 (Num 1) True], throws = False\<rparr>)
       (run_op (CreateTimer 0 7 (Num 1) True) eventloop_register))) = 10 \<and>
   timer_ids (outcome (expire_timers 100
       (replicate 12 \<lparr>calls = [CreateTimer 0 7 (Num 1) True], throws = False\<rparr>)
       (run_op (CreateTimer 0 7 (Num 1) True) eventloop_register))) = [11] \<and>
   timer_calls (outcome (expire_timers 100
       (replicate 12 \<lparr>calls = [CreateTimer 0 7 (Num 1) True], throws = False\<rparr>)
       (run_op (CreateTimer 0 7 (Num 1) True) eventloop_register)))
     \<le> timer_calls (run_op (CreateTimer 0 7 (Num 1) True) eventloop_register) + 10 \<and>
   exit_requested (run_ops [CreateTimer 0 7 (Num 1) True, RequestExit] eventloop_register) \<and>
   expire_loop 10 100 [] (run_ops [CreateTimer 0 7 (Num 1) True, RequestExit] eventloop_register) =
     Inr (run_ops [CreateTimer 0 7 (Num 1) True, RequestExit] eventloop_register)"
proof -
  let ?bs = "replicate 12 \<lparr>calls = [CreateTimer 0 7 (Num 1) True], throws = False\<rparr>"
  let ?s = "run_op (CreateTimer 0 7 (Num 1) True) eventloop_register"
  let ?x = "run_ops [CreateTimer 0 7 (Num 1) True, RequestExit] eventloop_register"
  have ten: "timer_calls (outcome (expire_timers 100 ?bs ?s)) = 10"
    and left: "timer_ids (outcome (expire_timers 100 ?bs ?s)) = [11]"
    by (simp_all add: run_defs timer_calls_def timer_ids_def)
  have x: "exit_requested ?x"
    by (simp add: run_defs)
  from expire_timers_bounded [of 100 ?bs ?s]
  have "timer_calls (outcome (expire_timers 100 ?bs ?s)) \<le> timer_calls ?s + 10"
    by blast
  moreover from expire_timers_bounded [of 100 "[]" ?x 10] x
  have "expire_loop 10 100 [] ?x = Inr ?x"
    by blast
  ultimately show ?thesis using ten left x by blast
qed

subsection \<open>Leaving the loop when nothing is left\<close>

text \<open>
  Claim C8. In a loop iteration where, after the timers have been expired and the poll
  list compacted, no timer is pending and no descriptor is watched, the loop breaks:
  \<^verbatim>\<open>poll\<close> is not called and nothing more is appended to the trace after the expiry, so no
  callback runs; and \<^verbatim>\<open>eventloop_run\<close> returns there, whatever the environment would have
  done in later iterations.
\<close>

theorem loop_stops_when_idle:
  assumes "expire_timers (expire_now env) (timer_behaviours env) s = Inr s1"
    and "timer_list s1 = []" "compact_loop (poll_list s1) = []"
  shows "\<exists>s2. loop_iteration env s = Inr (STOPPED, s2) \<and>
              eventloop_run (env # envs) s = Some (Inr s2) \<and>
              trace s2 = trace s1 \<and> waits s2 = waits s \<and> fd_calls s2 = fd_calls s"
proof -
  define s2 where "s2 = (if exit_requested s1 then s1 else compact_poll_list s1)"
  have idle: "poll_timeout (find_nearest_timer (compact_poll_list s1)) (poll_now env)
                (compact_poll_list s1) = Inr None"
    using assms(2,3) by (simp add: poll_timeout_def find_nearest_timer_def compact_poll_list_def)
  have it: "loop_iteration env s = Inr (STOPPED, s2)"
    using assms(1) idle by (simp add: loop_iteration_def s2_def Let_def)
  have tr: "trace s2 = trace s1"
    by (simp add: s2_def compact_poll_list_def)
  have "timer_events_since s s1"
    using expire_timers_events [of s "expire_now env" "timer_behaviours env"] assms(1) by simp
  then have "timer_events_since s s2"
    using tr by (simp add: timer_events_since_def)
  then have "waits s2 = waits s" "fd_calls s2 = fd_calls s"
    by (rule timer_events_since_counts)+
  then show ?thesis using it tr by simp
qed

theorem loop_stops_when_idle_witness:
  "timer_list (outcome (expire_timers 100 [] (run_op (CreateTimer 0 7 (Num 10) True) eventloop_register))) = [] \<and>
   poll_list (outcome (expire_timers 100 [] (run_op (CreateTimer 0 7 (Num 10) True) eventloop_register))) = [] \<and>
   map_option (\<lambda>r. trace (outcome r))
     (eventloop_run
        [\<lparr>expire_now = 100, timer_behaviours = [], poll_now = 100, poll_rc = 1,
          poll_revents = [], fd_behaviours = []\<rparr>,
         \<lparr>expire_now = 200, timer_behaviours = [], poll_now = 200, poll_rc = 1,
          poll_revents = [], fd_behaviours = []\<rparr>]
        (run_op (CreateTimer 0 7 (Num 10) True) eventloop_register)) = Some [Call_timer 1]"
proof -
  let ?s = "run_op (CreateTimer 0 7 (Num 10) True) eventloop_register"
  let ?e = "\<lparr>expire_now = 100, timer_behaviours = [], poll_now = 100, poll_rc = 1,
          poll_revents = [], fd_behaviours = []\<rparr>"
  let ?e' = "\<lparr>expire_now = 200, timer_behaviours = [], poll_now = 200, poll_rc = 1,
          poll_revents = [], fd_behaviours = []\<rparr>"
  let ?s1 = "outcome (expire_timers 100 [] ?s)"
  have ex: "expire_timers (expire_now ?e) (timer_behaviours ?e) ?s = Inr ?s1"
    and tl: "timer_list ?s1 = []" and pl: "poll_list ?s1 = []" and tr: "trace ?s1 = [Call_timer 1]"
    by (simp_all add: run_defs)
  have cl: "compact_loop (poll_list ?s1) = []" by (simp add: pl)
  from loop_stops_when_idle [OF ex tl cl, of "[?e']"] tr
  have "map_option (\<lambda>r. trace (outcome r)) (eventloop_run [?e, ?e'] ?s) = Some [Call_timer 1]"
    by auto
  then show ?thesis using tl pl by blast
qed

subsection \<open>A failed wait\<close>

text \<open>
  The code skips the dispatch pass for a return of 0 only
  (\<^verbatim>\<open>n = (rc == 0 ? 0 : poll_count)\<close>): after a negative return it tests the \<^verbatim>\<open>revents\<close>
  of every entry as it does after a positive one. It finds none to act on: in every state
  a running program reaches no entry in use carries \<^verbatim>\<open>revents\<close>
  (\<open>program_history_revents_clear\<close>), compaction leaves only such entries, and a \<^verbatim>\<open>poll\<close>
  that fails sets none.
\<close>



subsection \<open>The console report of a failed readiness callback\<close>

text \<open>
  Claim C10. The report of a failed \<^verbatim>\<open>fdPollHandler\<close> call reads \<^verbatim>\<open>t->id\<close> through the
  pointer \<^verbatim>\<open>find_nearest_timer\<close> returned before the wait. With no timer pending that
  pointer is NULL (\<open>None\<close>): an iteration with no timer, a ready descriptor and a handler
  that throws ends in the null dereference. With a timer pending the pointer is not
  NULL, and the dispatch pass never ends so.
\<close>

theorem fd_failure_reads_null_timer:
  assumes "expire_timers (expire_now env) (timer_behaviours env) s = Inr s1"
    and "\<not> exit_requested s1" "timer_list s1 = []" "poll_rc env \<noteq> 0"
    and "p \<in> set (poll_list (poll (poll_revents env) 60000 (compact_poll_list s1)))"
    and "revents p \<noteq> 0" "fd_behaviours env = b # bs" "throws b"
  shows "find_nearest_timer (compact_poll_list s1) = None \<and>
         (\<exists>s'. loop_iteration env s = Inl (Null_dereference, s')) \<and>
         (\<exists>s'. dispatch_loop (Some j) i k bs0 s0 = Inr s')"
proof -
  let ?s2 = "compact_poll_list s1"
  let ?s3 = "poll (poll_revents env) 60000 ?s2"
  have t: "find_nearest_timer ?s2 = None"
    using assms(3) by (simp add: find_nearest_timer_def compact_poll_list_def)
  have len: "length (poll_list ?s3) = length (poll_list ?s2)"
    using arg_cong [OF write_revents_fd, of length "poll_revents env" "poll_list ?s2"]
    by (simp add: poll_def)
  have ne: "poll_list ?s2 \<noteq> []" using assms(5) len by auto
  have timeout: "poll_timeout None (poll_now env) ?s2 = Inr (Some 60000)"
    using ne by (simp add: poll_timeout_def MAX_WAIT_def)
  from assms(5) obtain n where n: "n < length (poll_list ?s3)" "poll_list ?s3 ! n = p"
    by (auto simp: in_set_conv_nth)
  have slot: "fd (poll_slot ?s3 n) \<noteq> 0" "revents (poll_slot ?s3 n) \<noteq> 0"
    using n assms(6) poll_fds [OF assms(5)] by (simp_all add: poll_slot_def)
  have "\<exists>s'. dispatch_loop None 0 (length (poll_list ?s3)) (fd_behaviours env) ?s3 =
          Inl (Null_dereference, s')"
    by (rule dispatch_loop_null [where j = n]) (use n slot assms(7,8) in simp_all)
  then have "\<exists>s'. loop_iteration env s = Inl (Null_dereference, s')"
    using assms(1,2,4) t timeout by (auto simp: loop_iteration_def Let_def)
  then show ?thesis using t dispatch_loop_Some by blast
qed

theorem fd_failure_reads_null_timer_witness:
  "isl (loop_iteration
          \<lparr>expire_now = 0, timer_behaviours = [], poll_now = 0, poll_rc = 1,
            poll_revents = [1], fd_behaviours = [\<lparr>calls = [], throws = True\<rparr>]\<rparr>
          (run_op (ListenFd 5 1) eventloop_register)) \<and>
   fst (projl (loop_iteration
          \<lparr>expire_now = 0, timer_behaviours = [], poll_now = 0, poll_rc = 1,
            poll_revents = [1], fd_behaviours = [\<lparr>calls = [], throws = True\<rparr>]\<rparr>
          (run_op (ListenFd 5 1) eventloop_register))) = Null_dereference"
proof -
  let ?s = "run_op (ListenFd 5 1) eventloop_register"
  let ?e = "\<lparr>expire_now = 0, timer_behaviours = [], poll_now = 0, poll_rc = 1,
            poll_revents = [1], fd_behaviours = [\<lparr>calls = [], throws = True\<rparr>]\<rparr>"
  let ?s1 = "?s\<lparr>timer_expiring := zero_timer\<rparr>"
  let ?p = "\<lparr>fd = 5, events = 1, revents = 1\<rparr>"
  have ex: "expire_timers (expire_now ?e) (timer_behaviours ?e) ?s = Inr ?s1"
    unfolding watch_five by (simp add: run_defs)
  have run: "\<not> exit_requested ?s1" and tl: "timer_list ?s1 = []"
    unfolding watch_five by (simp_all add: eventloop_register_def)
  have rc: "poll_rc ?e \<noteq> 0" by simp
  have p: "?p \<in> set (poll_list (poll (poll_revents ?e) 60000 (compact_poll_list ?s1)))"
    unfolding watch_five
    by (simp add: poll_def compact_poll_list_def emit_def eventloop_register_def)
  have r: "revents ?p \<noteq> 0" by simp
  have b: "fd_behaviours ?e = [\<lparr>calls = [], throws = True\<rparr>]" by simp
  have th: "throws \<lparr>calls = [], throws = True\<rparr>" by simp
  from fd_failure_reads_null_timer [OF ex run tl rc p r b th]
  obtain s' where "loop_iteration ?e ?s = Inl (Null_dereference, s')" by blast
  then show ?thesis by simp
qed

end
